theory Spec2Isabelle
  imports Main "HOL-Library.Sublist"
begin

section \<open>The pagination engine of the document processor\<close>

text \<open>
  A shallow embedding of \<open>src/js/core/PageManager.js\<close> (with the helpers of
  \<open>src/js/utils/DOMUtils.js\<close> it calls): the keep-with-next rule, the
  measurement loop, the keep-together adjustment of the split index, the move of
  the overflowing tail to the next page and the overflow pass with its reentrancy
  flag. Line numbers refer to \<open>PageManager.js\<close>.
\<close>

subsection \<open>Strings\<close>

text \<open>
  JavaScript strings are modelled as \<^typ>\<open>string\<close>, one \<^typ>\<open>char\<close> per code unit
  (code units 0 to 255). \<open>String.prototype.includes\<close> is the contiguous-sublist
  test, \<open>endsWith\<close> the suffix test, and \<open>trim\<close> strips white space and line
  terminators from both ends.
\<close>

definition includesStr :: "string \<Rightarrow> string \<Rightarrow> bool" where
  "includesStr s searchString = sublist searchString s"

definition endsWith :: "string \<Rightarrow> string \<Rightarrow> bool" where
  "endsWith s searchString = suffix searchString s"

definition isWhiteSpace :: "char \<Rightarrow> bool" where
  "isWhiteSpace c = (c \<in> {CHR 0x09, CHR 0x0A, CHR 0x0B, CHR 0x0C, CHR 0x0D, CHR 0x20, CHR 0xA0})"

definition trim :: "string \<Rightarrow> string" where
  "trim s = rev (dropWhile isWhiteSpace (rev (dropWhile isWhiteSpace s)))"

subsection \<open>Content nodes\<close>

text \<open>
  A child node of a page's content area. \<open>nid\<close> is the identity of the DOM object,
  \<open>nodeType\<close> is 1 for an element (3 for text, 8 for a comment), \<open>tagName\<close> is
  \<open>None\<close> where the DOM property is undefined (non-element nodes), and
  \<open>outerHTML\<close> is the node's serialisation, from which the parent's \<open>innerHTML\<close>
  is assembled.
\<close>

record node =
  nid :: nat
  nodeType :: nat
  tagName :: "string option"
  textContent :: string
  outerHTML :: string

text \<open>
  A reference to a child of a content area is its position in the area's
  \<open>childNodes\<close>: the DOM objects in that list are pairwise different, so position and
  identity determine each other. \<open>None\<close> is \<open>null\<close>. A position outside the list
  denotes no node (\<open>allNodes[i]\<close> is \<open>undefined\<close> there).
\<close>

definition nodeAt :: "node list \<Rightarrow> nat \<Rightarrow> node option" where
  "nodeAt siblings h = (if h < length siblings then Some (siblings ! h) else None)"

text \<open>\<open>element.nextElementSibling\<close>: the first element node after position \<open>h\<close>.\<close>

definition nextElementSibling :: "node list \<Rightarrow> nat \<Rightarrow> nat option" where
  "nextElementSibling siblings h =
     List.find (\<lambda>j. nodeType (siblings ! j) = 1) [Suc h ..< length siblings]"

text \<open>\<open>allNodes.indexOf(groupNode)\<close> for a node given by its position.\<close>

definition indexOf :: "node list \<Rightarrow> nat \<Rightarrow> int" where
  "indexOf allNodes h = (if h < length allNodes then int h else - 1)"

subsection \<open>Keep-with-next (PageManager.js, lines 59 to 115)\<close>

definition isHeadingTag :: "string option \<Rightarrow> bool" where
  "isHeadingTag t = (t \<in> {Some ''H1'', Some ''H2'', Some ''H3'', Some ''H4'', Some ''H5'', Some ''H6''})"

text \<open>
  \<open>shouldKeepWithNext(element)\<close>, with the conditionals nested as in the
  source. \<open>siblings\<close> is the \<open>childNodes\<close> list the element lives in.
  \<open>colonRule\<close> is the second top-level conditional followed by the final
  \<open>return false\<close>.
\<close>

definition shouldKeepWithNext :: "node list \<Rightarrow> nat option \<Rightarrow> bool" where
  "shouldKeepWithNext siblings element =
     (case element of
        None \<Rightarrow> False
      | Some h \<Rightarrow>
         (case nodeAt siblings h of
            None \<Rightarrow> False
          | Some el \<Rightarrow>
             (case nextElementSibling siblings h of
                None \<Rightarrow> False
              | Some nx \<Rightarrow>
                 (let nextElement = siblings ! nx;
                      colonRule =
                        (if tagName el = Some ''P'' \<and> endsWith (trim (textContent el)) '':''
                         then (if tagName nextElement \<in> {Some ''TABLE'', Some ''UL'', Some ''OL''}
                               then True else False)
                         else False)
                  in if isHeadingTag (tagName el)
                     then (if tagName nextElement = Some ''TABLE'' then True
                           else if tagName nextElement \<in> {Some ''UL'', Some ''OL''} then True
                           else if tagName nextElement = Some ''P''
                                   \<and> length (textContent nextElement) < 100
                           then (case nextElementSibling siblings nx of
                                   None \<Rightarrow> colonRule
                                 | Some af \<Rightarrow>
                                     if tagName (siblings ! af) = Some ''TABLE'' then True
                                     else colonRule)
                           else colonRule)
                     else colonRule))))"

text \<open>
  \<open>getKeepTogetherGroup\<close>: the group starts with the given node and grows by
  the next element sibling for as long as \<open>shouldKeepWithNext\<close> holds of its
  last member. The positions strictly increase, which is why the loop ends.
\<close>

function getKeepTogetherGroup :: "node list \<Rightarrow> nat \<Rightarrow> nat list" where
  "getKeepTogetherGroup siblings current =
     current #
       (if shouldKeepWithNext siblings (Some current)
        then (case nextElementSibling siblings current of
                Some nx \<Rightarrow> getKeepTogetherGroup siblings nx
              | None \<Rightarrow> [])
        else [])"
  by pat_completeness auto
termination
proof (relation "measure (\<lambda>(siblings, current). length siblings - current)")
  show "wf (measure (\<lambda>(siblings, current). length siblings - current))"
    by simp
next
  fix siblings :: "node list" and current nx :: nat
  assume "nextElementSibling siblings current = Some nx"
  then have "current < nx" and "nx < length siblings"
    unfolding nextElementSibling_def find_Some_iff by auto
  then show "((siblings, nx), (siblings, current))
      \<in> measure (\<lambda>(siblings, current). length siblings - current)"
    by simp
qed

declare getKeepTogetherGroup.simps [simp del]

subsection \<open>Exceptions\<close>

text \<open>
  \<open>TypeError\<close> is what a property read on \<open>null\<close> or \<open>undefined\<close> raises;
  \<open>MeasurementError\<close> stands for any exception raised while the layout of the
  measurement container is read.
\<close>

datatype error = TypeError | MeasurementError

subsection \<open>Keep-together adjustment of the split index (lines 237 to 265)\<close>

text \<open>
  \<open>allNodes\<close> is \<open>Array.from(content.childNodes)\<close> (line 158), the list the
  siblings of its nodes are found in. The inner loop over the group computes the
  largest position of a group member in \<open>allNodes\<close>, starting from \<open>i\<close>.
\<close>

definition groupEndIndex :: "node list \<Rightarrow> nat \<Rightarrow> nat list \<Rightarrow> int" where
  "groupEndIndex allNodes i grp =
     foldl (\<lambda>groupEnd groupNode.
              let nodeIndex = indexOf allNodes groupNode
              in if nodeIndex > groupEnd then nodeIndex else groupEnd)
           (int i) grp"

text \<open>
  The backward loop \<open>for (let i = splitIndex - 1; i >= 0; i--)\<close>; the last argument
  is \<open>i + 1\<close>. Reading \<open>allNodes[i]\<close> outside the array gives \<open>undefined\<close>, and
  \<open>node.nodeType\<close> then raises a \<open>TypeError\<close>.
\<close>

fun scanBackward :: "node list \<Rightarrow> int \<Rightarrow> nat \<Rightarrow> error + int" where
  "scanBackward allNodes splitIndex 0 = Inr splitIndex"
| "scanBackward allNodes splitIndex (Suc i) =
     (case nodeAt allNodes i of
        None \<Rightarrow> Inl TypeError
      | Some node \<Rightarrow>
          if nodeType node = 1
          then (let grp = getKeepTogetherGroup allNodes i
                in if length grp > 1
                   then (if groupEndIndex allNodes i grp \<ge> splitIndex
                         then Inr (int i)
                         else scanBackward allNodes splitIndex i)
                   else scanBackward allNodes splitIndex i)
          else scanBackward allNodes splitIndex i)"

definition adjustSplitForKeepTogether :: "node list \<Rightarrow> int \<Rightarrow> error + int" where
  "adjustSplitForKeepTogether allNodes splitIndex =
     scanBackward allNodes splitIndex (nat splitIndex)"

subsection \<open>Pages, layout readings and the manager's state\<close>

text \<open>
  A content area is a \<open>.editable-content\<close> element: its child nodes in document
  order and its inline style. A page is a \<open>.document-container\<close> element of the
  page wrapper; \<open>content\<close> is \<open>container.querySelector('.editable-content')\<close>,
  \<open>None\<close> when the container has no content area. The page wrapper holds the
  pages and nothing else (index.html, \<open>createNewPageElement\<close>), so the next
  element sibling of a container is the next page.
\<close>

record area =
  childNodes :: "node list"
  cssText :: string

record page =
  pageId :: nat
  content :: "area option"

text \<open>
  The measurement container of \<open>createMeasurementContainer\<close>: an absolutely
  positioned, hidden \<open>div\<close> of automatic height with the content's inline style
  and width, holding the clones appended so far.
\<close>

record sandbox =
  sandboxCssText :: string
  sandboxWidth :: int
  clones :: "node list"

text \<open>
  What the layout engine reports. Heights are whole numbers of CSS pixels.
  Reading the measurement container can fail: \<open>sandboxScrollHeight\<close> gives
  either the height or the exception of the measurement step.
\<close>

record layout =
  clientHeight :: "area \<Rightarrow> int"
  clientWidth :: "area \<Rightarrow> int"
  scrollHeight :: "area \<Rightarrow> int"
  sandboxScrollHeight :: "sandbox \<Rightarrow> error + int"

text \<open>
  The state the engine reads and writes: the pages of the document, the fields
  \<open>pageCount\<close> and \<open>isProcessingOverflow\<close> of the manager, the scratch
  elements attached to \<open>document.body\<close>, the number of follow-up checks scheduled
  with \<open>setTimeout\<close>, the page whose content area has the focus, and the record
  of the calls of \<open>handlePageOverflow\<close> (the page index of each call, as a spy
  on the method sees them). The mutation observer, the status line and the
  table-of-contents refresh are external collaborators and are left out.
\<close>

record state =
  pages :: "page list"
  pageCount :: nat
  isProcessingOverflow :: bool
  body :: "sandbox list"
  pendingChecks :: nat
  focusedPage :: "nat option"
  handled :: "nat list"

datatype outcome = Returned | Threw error

text \<open>
  The content area of the container at a position of the page list; a position
  that denotes no container has none.
\<close>

definition contentOf :: "page list \<Rightarrow> nat \<Rightarrow> area option" where
  "contentOf ps container = (if container < length ps then content (ps ! container) else None)"

definition pageNodes :: "page \<Rightarrow> node list" where
  "pageNodes p = (case content p of None \<Rightarrow> [] | Some a \<Rightarrow> childNodes a)"

definition documentNodes :: "page list \<Rightarrow> node list" where
  "documentNodes ps = concat (map pageNodes ps)"

definition innerHTML :: "area \<Rightarrow> string" where
  "innerHTML a = concat (map outerHTML (childNodes a))"

subsection \<open>Measurement (lines 153 to 200)\<close>

definition createMeasurementContainer :: "layout \<Rightarrow> state \<Rightarrow> area \<Rightarrow> sandbox \<times> state" where
  "createMeasurementContainer L s contentArea =
     (let tempDiv = \<lparr>sandboxCssText = cssText contentArea,
                     sandboxWidth = clientWidth L contentArea,
                     clones = []\<rparr>
      in (tempDiv, s\<lparr>body := body s @ [tempDiv]\<rparr>))"

text \<open>
  The measurement loop of \<open>handlePageOverflow\<close> over the nodes from index
  \<open>i\<close> on. A clone is a copy of the node's data. The result is the container
  as the loop leaves it, and the split index (\<open>- 1\<close> when the loop runs to its
  end) or the exception of a measurement step.
\<close>

fun measureNodes ::
  "layout \<Rightarrow> int \<Rightarrow> sandbox \<Rightarrow> node list \<Rightarrow> nat \<Rightarrow> int \<Rightarrow> sandbox \<times> (error + int)" where
  "measureNodes L availableHeight tempDiv [] i currentHeight = (tempDiv, Inr (- 1))"
| "measureNodes L availableHeight tempDiv (n # rest) i currentHeight =
     (let clone = n;
          tempDiv' = tempDiv\<lparr>clones := clones tempDiv @ [clone]\<rparr>
      in case sandboxScrollHeight L tempDiv' of
           Inl e \<Rightarrow> (tempDiv', Inl e)
         | Inr h \<Rightarrow>
             (let nodeHeight = h - currentHeight
              in if currentHeight + nodeHeight > availableHeight
                 then (tempDiv', Inr (int i))
                 else measureNodes L availableHeight tempDiv' rest (Suc i) h))"

subsection \<open>Page creation (lines 329 to 399)\<close>

definition freshNid :: "page list \<Rightarrow> nat" where
  "freshNid ps = Suc (fold max (map nid (documentNodes ps)) 0)"

text \<open>
  The new container's content area holds the white-space text of the template,
  a text node of its own, and the template's inline style. \<open>copyPageStyles\<close>
  copies the first page's computed width and font size into the style; that only
  changes what the layout reports, which is a parameter here, and is left out.
\<close>

definition createNewPageElement :: "state \<Rightarrow> page" where
  "createNewPageElement s =
     \<lparr>pageId = pageCount s,
      content = Some
        \<lparr>childNodes =
           [\<lparr>nid = freshNid (pages s), nodeType = 3, tagName = None,
             textContent = [CHR 0x0A] @ ''      '', outerHTML = [CHR 0x0A] @ ''      ''\<rparr>],
         cssText = ''height: 9in; min-height: 9in; max-height: 9in;''\<rparr>\<rparr>"

text \<open>
  \<open>addNewPage\<close> returns the position of the new container, inserted after the
  last page. Without any page \<open>lastPage\<close> is \<open>null\<close> and the insertion raises.
\<close>

definition addNewPage :: "state \<Rightarrow> (error + nat) \<times> state" where
  "addNewPage s =
     (let s1 = s\<lparr>pageCount := Suc (pageCount s)\<rparr>
      in if pages s1 = [] then (Inl TypeError, s1)
         else (Inr (length (pages s1)), s1\<lparr>pages := pages s1 @ [createNewPageElement s1]\<rparr>))"

subsection \<open>Moving content (lines 273 to 322)\<close>

text \<open>\<open>Array.prototype.slice(start)\<close>; a negative start counts from the end.\<close>

definition slice :: "'a list \<Rightarrow> int \<Rightarrow> 'a list" where
  "slice xs start =
     (if start < 0 then drop (nat (int (length xs) + start)) xs else drop (nat start) xs)"

definition removeNode :: "node \<Rightarrow> node list \<Rightarrow> node list" where
  "removeNode n xs = filter (\<lambda>m. nid m \<noteq> nid n) xs"

definition removeFromPage :: "node \<Rightarrow> page \<Rightarrow> page" where
  "removeFromPage n p =
     p\<lparr>content := map_option (\<lambda>a. a\<lparr>childNodes := removeNode n (childNodes a)\<rparr>) (content p)\<rparr>"

text \<open>
  \<open>node.parentNode\<close> is set when the node is a child of a content area or already
  in the fragment.
\<close>

definition hasParent :: "page list \<Rightarrow> node list \<Rightarrow> node \<Rightarrow> bool" where
  "hasParent ps fragment n = (nid n \<in> set (map nid (fragment @ documentNodes ps)))"

text \<open>
  \<open>nodesToMove.forEach(node => { if (node.parentNode) fragment.appendChild(node) })\<close>:
  appending a node removes it from its parent first.
\<close>

fun appendToFragment :: "node list \<Rightarrow> node list \<times> page list \<Rightarrow> node list \<times> page list" where
  "appendToFragment [] (fragment, ps) = (fragment, ps)"
| "appendToFragment (n # rest) (fragment, ps) =
     (if hasParent ps fragment n
      then appendToFragment rest (removeNode n fragment @ [n], map (removeFromPage n) ps)
      else appendToFragment rest (fragment, ps))"

text \<open>
  \<open>moveContentToNextPage\<close>. The destination is given by the position
  \<open>nextContainer\<close> of its page; \<open>nextContent\<close> is that page's content area,
  and reading \<open>nextContent.innerHTML\<close> raises when there is none, after the
  nodes have been detached. Setting \<open>innerHTML\<close> to the empty string removes
  every child of the destination.
\<close>

definition moveContentToNextPage ::
  "state \<Rightarrow> node list \<Rightarrow> int \<Rightarrow> nat \<Rightarrow> outcome \<times> state" where
  "moveContentToNextPage s allNodes splitIndex nextContainer =
     (let nodesToMove = slice allNodes splitIndex;
          (fragment, ps) = appendToFragment nodesToMove ([], pages s);
          s1 = s\<lparr>pages := ps\<rparr>
      in case contentOf ps nextContainer of
           None \<Rightarrow> (Threw TypeError, s1)
         | Some nextContent \<Rightarrow>
             (let cleared =
                    (if includesStr (innerHTML nextContent) ''Continue your content here''
                     then nextContent\<lparr>childNodes := []\<rparr>
                     else nextContent);
                  filled = cleared\<lparr>childNodes := fragment @ childNodes cleared\<rparr>
              in (Returned,
                  s1\<lparr>pages := ps[nextContainer := (ps ! nextContainer)\<lparr>content := Some filled\<rparr>]\<rparr>)))"

text \<open>
  \<open>handleCursorMovement\<close>: the focus moves to the destination when at least one
  node lies at or after the split index (the caret and the scrolling are left out).
\<close>

definition handleCursorMovement :: "state \<Rightarrow> node list \<Rightarrow> int \<Rightarrow> nat \<Rightarrow> state" where
  "handleCursorMovement s nodesToMove splitIndex nextContainer =
     (if int (length nodesToMove) > splitIndex
      then s\<lparr>focusedPage := Some nextContainer\<rparr>
      else s)"

subsection \<open>Splitting and the overflow pass (lines 121 to 229)\<close>

text \<open>
  \<open>splitContentAtIndex\<close>. \<open>container\<close> is the position of the current page.
  Its next element sibling is the next page when there is one; otherwise
  \<open>addNewPage\<close> supplies it. The last step schedules the follow-up check.
\<close>

definition splitContentAtIndex ::
  "state \<Rightarrow> nat \<Rightarrow> node list \<Rightarrow> int \<Rightarrow> outcome \<times> state" where
  "splitContentAtIndex s container allNodes splitIndex =
     (case adjustSplitForKeepTogether allNodes splitIndex of
        Inl e \<Rightarrow> (Threw e, s)
      | Inr adjustedSplitIndex \<Rightarrow>
          (case (if Suc container < length (pages s) then (Inr (Suc container), s)
                 else addNewPage s) of
             (Inl e, s1) \<Rightarrow> (Threw e, s1)
           | (Inr nextContainer, s1) \<Rightarrow>
               (case moveContentToNextPage s1 allNodes adjustedSplitIndex nextContainer of
                  (Threw e, s2) \<Rightarrow> (Threw e, s2)
                | (Returned, s2) \<Rightarrow>
                    (let s3 = handleCursorMovement s2 allNodes adjustedSplitIndex nextContainer
                     in (Returned, s3\<lparr>pendingChecks := Suc (pendingChecks s3)\<rparr>)))))"

text \<open>
  \<open>handlePageOverflow\<close>. The first update records the call. The measurement
  container is the last child of the body from its creation to its removal, so
  \<open>document.body.removeChild(tempDiv)\<close> drops the last scratch element. The
  removal is a statement after the loop: when a measurement step throws, the
  exception leaves the function with the container still attached.
\<close>

definition handlePageOverflow ::
  "layout \<Rightarrow> state \<Rightarrow> nat \<Rightarrow> area \<Rightarrow> int \<Rightarrow> outcome \<times> state" where
  "handlePageOverflow L s container contentArea availableHeight =
     (let (tempDiv, s1) =
            createMeasurementContainer L (s\<lparr>handled := handled s @ [container]\<rparr>) contentArea;
          allNodes = childNodes contentArea
      in case measureNodes L availableHeight tempDiv allNodes 0 0 of
           (tempDiv', Inl e) \<Rightarrow> (Threw e, s1\<lparr>body := butlast (body s1) @ [tempDiv']\<rparr>)
         | (tempDiv', Inr splitIndex) \<Rightarrow>
             (let s2 = s1\<lparr>body := butlast (body s1)\<rparr>
              in if splitIndex \<ge> 0
                 then splitContentAtIndex s2 container allNodes splitIndex
                 else (Returned, s2)))"

text \<open>The callback of \<open>containers.forEach\<close> for the container at \<open>index\<close>.\<close>

definition containerCallback :: "layout \<Rightarrow> nat \<Rightarrow> state \<Rightarrow> outcome \<times> state" where
  "containerCallback L index s =
     (case contentOf (pages s) index of
        None \<Rightarrow> (Returned, s)
      | Some contentArea \<Rightarrow>
          (let availableHeight = clientHeight L contentArea;
               contentHeight = scrollHeight L contentArea
           in if contentHeight > availableHeight + 2
              then handlePageOverflow L s index contentArea availableHeight
              else (Returned, s)))"

fun forEachContainer :: "layout \<Rightarrow> nat list \<Rightarrow> state \<Rightarrow> outcome \<times> state" where
  "forEachContainer L [] s = (Returned, s)"
| "forEachContainer L (index # rest) s =
     (case containerCallback L index s of
        (Threw e, s') \<Rightarrow> (Threw e, s')
      | (Returned, s') \<Rightarrow> forEachContainer L rest s')"

text \<open>
  \<open>getAllDocumentContainers()\<close> is a static list: the pages present when the
  pass starts. The \<open>finally\<close> block clears the flag on both outcomes.
\<close>

definition checkPageOverflow :: "layout \<Rightarrow> state \<Rightarrow> outcome \<times> state" where
  "checkPageOverflow L s =
     (if isProcessingOverflow s then (Returned, s)
      else (let s1 = s\<lparr>isProcessingOverflow := True\<rparr>;
                containers = [0 ..< length (pages s1)];
                (result, s2) = forEachContainer L containers s1
            in (result, s2\<lparr>isProcessingOverflow := False\<rparr>)))"

section \<open>Notions of the specification\<close>

text \<open>
  The definitions of this section follow the wording of the specification; the
  theorems below compare them with the code.
\<close>

text \<open>The overflow test as the specification words it.\<close>

definition isOverflowing :: "layout \<Rightarrow> area \<Rightarrow> bool" where
  "isOverflowing L contentArea = (scrollHeight L contentArea > clientHeight L contentArea + 2)"

definition isTableOrList :: "string option \<Rightarrow> bool" where
  "isTableOrList t = (t = Some ''TABLE'' \<or> t = Some ''UL'' \<or> t = Some ''OL'')"

definition keepWithNextSpec :: "node list \<Rightarrow> nat option \<Rightarrow> bool" where
  "keepWithNextSpec siblings element =
     (case element of
        None \<Rightarrow> False
      | Some h \<Rightarrow>
         (case (nodeAt siblings h, nextElementSibling siblings h) of
            (Some el, Some nx) \<Rightarrow>
              (isHeadingTag (tagName el) \<and> isTableOrList (tagName (siblings ! nx)))
              \<or> (isHeadingTag (tagName el) \<and> tagName (siblings ! nx) = Some ''P''
                   \<and> length (textContent (siblings ! nx)) < 100
                   \<and> (case nextElementSibling siblings nx of
                          Some af \<Rightarrow> tagName (siblings ! af) = Some ''TABLE''
                        | None \<Rightarrow> False))
              \<or> (tagName el = Some ''P'' \<and> endsWith (trim (textContent el)) '':''
                   \<and> isTableOrList (tagName (siblings ! nx)))
          | _ \<Rightarrow> False))"

text \<open>
  The keep-together group of the element at position \<open>i\<close> straddles the cut
  when its last member lies at or after the split index.
\<close>

definition straddles :: "node list \<Rightarrow> int \<Rightarrow> nat \<Rightarrow> bool" where
  "straddles allNodes splitIndex i =
     (nodeType (allNodes ! i) = 1
      \<and> int (last (getKeepTogetherGroup allNodes i)) \<ge> splitIndex)"

text \<open>
  The readings of the measurement loop: \<open>scrollAfter k\<close> is
  \<open>tempDiv.scrollHeight\<close> once the clones of the first \<open>k\<close> nodes are in the
  container, \<open>nodeHeightAt i\<close> is the \<open>nodeHeight\<close> the loop computes for node
  \<open>i\<close> (the reading minus \<open>currentHeight\<close>, which starts at 0), and
  \<open>cumulativeHeight i\<close> is the sum of the measured heights of nodes 0 to \<open>i\<close>.
\<close>

definition scrollAfter :: "layout \<Rightarrow> sandbox \<Rightarrow> node list \<Rightarrow> nat \<Rightarrow> int" where
  "scrollAfter L tempDiv allNodes k =
     (case sandboxScrollHeight L (tempDiv\<lparr>clones := clones tempDiv @ take k allNodes\<rparr>) of
        Inr h \<Rightarrow> h
      | Inl e \<Rightarrow> 0)"

definition nodeHeightAt :: "layout \<Rightarrow> sandbox \<Rightarrow> node list \<Rightarrow> nat \<Rightarrow> int" where
  "nodeHeightAt L tempDiv allNodes i =
     scrollAfter L tempDiv allNodes (Suc i)
       - (if i = 0 then 0 else scrollAfter L tempDiv allNodes i)"

definition cumulativeHeight :: "layout \<Rightarrow> sandbox \<Rightarrow> node list \<Rightarrow> nat \<Rightarrow> int" where
  "cumulativeHeight L tempDiv allNodes i =
     sum_list (map (nodeHeightAt L tempDiv allNodes) [0 ..< Suc i])"

definition measurable :: "layout \<Rightarrow> sandbox \<Rightarrow> node list \<Rightarrow> bool" where
  "measurable L tempDiv allNodes =
     (\<forall>k<length allNodes.
        \<exists>h. sandboxScrollHeight L (tempDiv\<lparr>clones := clones tempDiv @ take (Suc k) allNodes\<rparr>) = Inr h)"

text \<open>
  The block nodes of a document are the element nodes of its pages in page order.
  A document is well formed when every node object occurs once: no node is a child
  of two content areas or twice a child of one. \<open>hasPlaceholder\<close> is the test
  \<open>moveContentToNextPage\<close> applies to its destination.
\<close>

definition blockNodes :: "page list \<Rightarrow> node list" where
  "blockNodes ps = filter (\<lambda>n. nodeType n = 1) (documentNodes ps)"

definition wellFormed :: "page list \<Rightarrow> bool" where
  "wellFormed ps = distinct (map nid (documentNodes ps))"

definition hasPlaceholder :: "area \<Rightarrow> bool" where
  "hasPlaceholder a = includesStr (innerHTML a) ''Continue your content here''"

text \<open>
  The notions of the amended conservation property. A page contains the phrase
  when the test of \<open>moveContentToNextPage\<close> succeeds on its content area.
  Of the pages after a pass, the first \<open>n\<close> are the pages the pass started
  with; a page added by the pass ends with the text node of the page template,
  which is a new node. \<open>carriedNodes n after j\<close> are the other nodes on page
  \<open>j\<close> or a later page. The pass moved content onto page \<open>j\<close> when one
  of them was on an earlier page before the pass: a move takes nodes from a page
  to the next one and nothing moves back. A block node is on a phrase destination
  when it was, before the pass, on a page that contained the phrase and onto
  which the pass moved content.
\<close>

definition containsPhrase :: "page \<Rightarrow> bool" where
  "containsPhrase p = (case content p of None \<Rightarrow> False | Some a \<Rightarrow> hasPlaceholder a)"

definition carriedNodes :: "nat \<Rightarrow> page list \<Rightarrow> nat \<Rightarrow> node list" where
  "carriedNodes n after j =
     documentNodes (drop j (take n after))
       @ concat (map (\<lambda>p. butlast (pageNodes p)) (drop n after))"

definition receivedContent :: "page list \<Rightarrow> page list \<Rightarrow> nat \<Rightarrow> bool" where
  "receivedContent before after j =
     list_ex (\<lambda>n. nid n \<in> set (map nid (carriedNodes (length before) after j)))
       (documentNodes (take j before))"

definition phraseDestination :: "page list \<Rightarrow> page list \<Rightarrow> nat \<Rightarrow> bool" where
  "phraseDestination before after j =
     (j < length before \<and> containsPhrase (before ! j) \<and> receivedContent before after j)"

definition onPhraseDestination :: "page list \<Rightarrow> page list \<Rightarrow> node \<Rightarrow> bool" where
  "onPhraseDestination before after n =
     list_ex (\<lambda>j. phraseDestination before after j
                  \<and> nid n \<in> set (map nid (pageNodes (before ! j))))
       [0 ..< length before]"

text \<open>No content area overflows its capacity by more than the tolerance.\<close>

definition noPageOverflows :: "layout \<Rightarrow> state \<Rightarrow> bool" where
  "noPageOverflows L s =
     list_all (\<lambda>p. case content p of None \<Rightarrow> True | Some a \<Rightarrow> \<not> isOverflowing L a) (pages s)"

section \<open>Sample documents\<close>

text \<open>
  An HTML element with one text child, and a text node: the tag name is in upper
  case, the serialisation writes it in lower case.
\<close>

definition toLowerCase :: "string \<Rightarrow> string" where
  "toLowerCase s =
     map (\<lambda>c. let n = (of_char c :: nat) in if 65 \<le> n \<and> n \<le> 90 then char_of (n + 32) else c) s"

definition elementNode :: "nat \<Rightarrow> string \<Rightarrow> string \<Rightarrow> node" where
  "elementNode i tag txt =
     \<lparr>nid = i, nodeType = 1, tagName = Some tag, textContent = txt,
      outerHTML = ''<'' @ toLowerCase tag @ ''>'' @ txt @ ''</'' @ toLowerCase tag @ ''>''\<rparr>"

definition textNode :: "nat \<Rightarrow> string \<Rightarrow> node" where
  "textNode i txt =
     \<lparr>nid = i, nodeType = 3, tagName = None, textContent = txt, outerHTML = txt\<rparr>"

definition sampleNodes :: "node list" where
  "sampleNodes =
     [elementNode 1 ''P'' ''Intro'',
      textNode 2 '' '',
      elementNode 3 ''H2'' ''Results'',
      elementNode 4 ''P'' ''Table 1'',
      elementNode 5 ''TABLE'' ''data'',
      elementNode 6 ''P'' ''Items include: '',
      elementNode 7 ''UL'' ''a b'']"

definition nodeHeightSample :: "node \<Rightarrow> int" where
  "nodeHeightSample n = (if nodeType n = 1 then 500 else 0)"

text \<open>
  A layout in which every element is 500 units tall, text nodes take no height
  and every content area has a capacity of 864 units.
\<close>

definition sampleLayout :: layout where
  "sampleLayout =
     \<lparr>clientHeight = (\<lambda>a. 864), clientWidth = (\<lambda>a. 624),
      scrollHeight = (\<lambda>a. sum_list (map nodeHeightSample (childNodes a))),
      sandboxScrollHeight = (\<lambda>t. Inr (sum_list (map nodeHeightSample (clones t))))\<rparr>"

text \<open>The same layout, except that reading the measurement container raises.\<close>

definition failingLayout :: layout where
  "failingLayout = sampleLayout\<lparr>sandboxScrollHeight := (\<lambda>t. Inl MeasurementError)\<rparr>"

definition threeParagraphs :: area where
  "threeParagraphs =
     \<lparr>childNodes = [elementNode 1 ''P'' ''a'', elementNode 2 ''P'' ''b'', elementNode 3 ''P'' ''c''],
      cssText = []\<rparr>"

definition mkState :: "page list \<Rightarrow> state" where
  "mkState ps =
     \<lparr>pages = ps, pageCount = length ps, isProcessingOverflow = False, body = [],
      pendingChecks = 0, focusedPage = None, handled = []\<rparr>"

definition onePage :: state where
  "onePage = mkState [\<lparr>pageId = 1, content = Some threeParagraphs\<rparr>]"

text \<open>The same document while a pass is active.\<close>

definition passActive :: state where
  "passActive = onePage\<lparr>isProcessingOverflow := True\<rparr>"

definition afterFirstPass :: state where
  "afterFirstPass = snd (checkPageOverflow sampleLayout onePage)"

definition afterSecondPass :: state where
  "afterSecondPass = snd (checkPageOverflow sampleLayout afterFirstPass)"

definition pageWithoutContent :: page where
  "pageWithoutContent = \<lparr>pageId = 2, content = None\<rparr>"

definition brokenNextPage :: state where
  "brokenNextPage = mkState [\<lparr>pageId = 1, content = Some threeParagraphs\<rparr>, pageWithoutContent]"

definition stubNextPage :: state where
  "stubNextPage =
     mkState [\<lparr>pageId = 1, content = Some threeParagraphs\<rparr>,
              \<lparr>pageId = 2, content = Some
                 \<lparr>childNodes = [elementNode 10 ''P'' ''Continue your content here...''],
                  cssText = []\<rparr>\<rparr>]"

definition notesNextPage :: state where
  "notesNextPage =
     mkState [\<lparr>pageId = 1, content = Some threeParagraphs\<rparr>,
              \<lparr>pageId = 2, content = Some
                 \<lparr>childNodes = [elementNode 10 ''P'' ''Continue your content here...'',
                                 elementNode 11 ''P'' ''My notes''],
                  cssText = []\<rparr>\<rparr>]"

text \<open>The sample layout with a fixed reading for the extent of every content area.\<close>

definition layoutWithScroll :: "int \<Rightarrow> layout" where
  "layoutWithScroll h = sampleLayout\<lparr>scrollHeight := (\<lambda>a. h)\<rparr>"

text \<open>
  Three pages: the first overflows by one paragraph, the second holds the
  placeholder paragraph and a paragraph of the user's, the third holds a
  placeholder paragraph and receives nothing.
\<close>

definition threePages :: state where
  "threePages =
     mkState [\<lparr>pageId = 1, content = Some
                 \<lparr>childNodes = [elementNode 1 ''P'' ''a'', elementNode 2 ''P'' ''b''],
                  cssText = []\<rparr>\<rparr>,
              \<lparr>pageId = 2, content = Some
                 \<lparr>childNodes = [elementNode 10 ''P'' ''Continue your content here...'',
                                 elementNode 11 ''P'' ''My notes''],
                  cssText = []\<rparr>\<rparr>,
              \<lparr>pageId = 3, content = Some
                 \<lparr>childNodes = [elementNode 30 ''P'' ''Continue your content here...''],
                  cssText = []\<rparr>\<rparr>]"

definition freshContainer :: sandbox where
  "freshContainer = fst (createMeasurementContainer sampleLayout onePage threeParagraphs)"

section \<open>Properties\<close>

subsection \<open>Keep-together groups\<close>

lemma nextElementSibling_Some:
  assumes "nextElementSibling siblings h = Some j"
  shows "h < j" and "j < length siblings" and "nodeType (siblings ! j) = 1"
  using assms unfolding nextElementSibling_def find_Some_iff by auto

lemma group_hd: "hd (getKeepTogetherGroup ns i) = i"
  by (subst getKeepTogetherGroup.simps) simp

lemma group_ne: "getKeepTogetherGroup ns i \<noteq> []"
  by (subst getKeepTogetherGroup.simps) simp

lemma group_unfold:
  "getKeepTogetherGroup siblings current =
     current #
       (if shouldKeepWithNext siblings (Some current)
        then (case nextElementSibling siblings current of
                Some nx \<Rightarrow> getKeepTogetherGroup siblings nx
              | None \<Rightarrow> [])
        else [])"
  by (rule getKeepTogetherGroup.simps)

lemma group_mem_cases:
  assumes "g \<in> set (getKeepTogetherGroup siblings current)"
  shows "g = current \<or>
      (shouldKeepWithNext siblings (Some current) \<and>
       (\<exists>nx. nextElementSibling siblings current = Some nx
             \<and> g \<in> set (getKeepTogetherGroup siblings nx)))"
proof -
  from assms have "g \<in> set (current #
       (if shouldKeepWithNext siblings (Some current)
        then (case nextElementSibling siblings current of
                Some nx \<Rightarrow> getKeepTogetherGroup siblings nx
              | None \<Rightarrow> [])
        else []))"
    by (simp only: group_unfold[symmetric])
  then show ?thesis
    by (cases "shouldKeepWithNext siblings (Some current)";
        cases "nextElementSibling siblings current") simp_all
qed

lemma group_bounds:
  "g \<in> set (getKeepTogetherGroup ns i) \<Longrightarrow> i \<le> g \<and> (i < length ns \<longrightarrow> g < length ns)"
proof (induction ns i arbitrary: g rule: getKeepTogetherGroup.induct)
  case (1 siblings current)
  from group_mem_cases[OF "1.prems"] show ?case
  proof
    assume "g = current" then show ?thesis by simp
  next
    assume "shouldKeepWithNext siblings (Some current) \<and>
       (\<exists>nx. nextElementSibling siblings current = Some nx \<and> g \<in> set (getKeepTogetherGroup siblings nx))"
    then obtain nx where k: "shouldKeepWithNext siblings (Some current)"
      and nx: "nextElementSibling siblings current = Some nx"
      and g: "g \<in> set (getKeepTogetherGroup siblings nx)" by blast
    from "1.IH"[OF k nx g] nextElementSibling_Some[OF nx] show ?thesis by simp
  qed
qed

lemma group_sorted: "sorted (getKeepTogetherGroup ns i)"
proof (induction ns i rule: getKeepTogetherGroup.induct)
  case (1 siblings current)
  show ?case
  proof (cases "shouldKeepWithNext siblings (Some current)")
    case False
    then show ?thesis by (subst getKeepTogetherGroup.simps) simp
  next
    case True
    show ?thesis
    proof (cases "nextElementSibling siblings current")
      case None
      with True show ?thesis by (subst getKeepTogetherGroup.simps) simp
    next
      case (Some nx)
      have lower: "\<forall>g\<in>set (getKeepTogetherGroup siblings nx). current \<le> g"
        using group_bounds[of _ siblings nx] nextElementSibling_Some(1)[OF Some] by fastforce
      have unfold: "getKeepTogetherGroup siblings current = current # getKeepTogetherGroup siblings nx"
        using True Some by (subst getKeepTogetherGroup.simps) simp
      have "sorted (getKeepTogetherGroup siblings nx)"
        using True Some by (rule "1.IH")
      with lower unfold show ?thesis by simp
    qed
  qed
qed

lemma groupEnd_fold:
  "\<forall>g\<in>set xs. g < length ns \<Longrightarrow> sorted xs \<Longrightarrow> xs \<noteq> [] \<Longrightarrow> e \<le> int (hd xs) \<Longrightarrow>
   foldl (\<lambda>groupEnd groupNode.
              let nodeIndex = indexOf ns groupNode
              in if nodeIndex > groupEnd then nodeIndex else groupEnd) e xs = int (last xs)"
proof (induction xs arbitrary: e)
  case Nil then show ?case by simp
next
  case (Cons x xs)
  show ?case
  proof (cases xs)
    case Nil
    with Cons.prems show ?thesis by (auto simp: indexOf_def Let_def)
  next
    case (Cons y ys)
    with Cons.prems have "x \<le> y" by simp
    with Cons.prems Cons Cons.IH[of "if indexOf ns x > e then indexOf ns x else e"]
    show ?thesis by (auto simp: indexOf_def Let_def)
  qed
qed

lemma groupEndIndex_last:
  "i < length ns \<Longrightarrow> groupEndIndex ns i (getKeepTogetherGroup ns i) = int (last (getKeepTogetherGroup ns i))"
  unfolding groupEndIndex_def
  by (rule groupEnd_fold) (use group_bounds[of _ ns i] group_sorted group_ne group_hd in auto)

lemma group_single: "length (getKeepTogetherGroup ns i) \<le> 1 \<Longrightarrow> last (getKeepTogetherGroup ns i) = i"
  using group_hd[of ns i] group_ne[of ns i]
  by (cases "getKeepTogetherGroup ns i") (auto split: if_splits)

lemma scanBackward_char:
  "k \<le> length ns \<Longrightarrow> int k \<le> sp \<Longrightarrow>
   \<exists>r. scanBackward ns sp k = Inr r \<and>
     ((\<exists>i<k. straddles ns sp i \<and> (\<forall>j. i < j \<and> j < k \<longrightarrow> \<not> straddles ns sp j) \<and> r = int i)
      \<or> ((\<forall>i<k. \<not> straddles ns sp i) \<and> r = sp))"
proof (induction k)
  case 0 then show ?case by simp
next
  case (Suc k)
  then have kl: "k < length ns" and ks: "int k < sp" by simp_all
  have long: "length (getKeepTogetherGroup ns k) > 1"
    if "int (last (getKeepTogetherGroup ns k)) \<ge> sp"
  proof (rule ccontr)
    assume "\<not> length (getKeepTogetherGroup ns k) > 1"
    then have "last (getKeepTogetherGroup ns k) = k" by (intro group_single) simp
    with that ks show False by simp
  qed
  have st: "straddles ns sp k \<longleftrightarrow> nodeType (ns ! k) = 1 \<and> length (getKeepTogetherGroup ns k) > 1
        \<and> groupEndIndex ns k (getKeepTogetherGroup ns k) \<ge> sp"
    unfolding straddles_def groupEndIndex_last[OF kl] using long by blast
  show ?case
  proof (cases "straddles ns sp k")
    case True
    with st kl have "scanBackward ns sp (Suc k) = Inr (int k)"
      by (simp add: nodeAt_def Let_def)
    with True show ?thesis by auto
  next
    case False
    with st kl have eq: "scanBackward ns sp (Suc k) = scanBackward ns sp k"
      by (auto simp: nodeAt_def Let_def)
    from Suc obtain r where r: "scanBackward ns sp k = Inr r"
      and c: "(\<exists>i<k. straddles ns sp i \<and> (\<forall>j. i < j \<and> j < k \<longrightarrow> \<not> straddles ns sp j) \<and> r = int i)
      \<or> ((\<forall>i<k. \<not> straddles ns sp i) \<and> r = sp)" by auto
    from c show ?thesis
    proof
      assume "\<exists>i<k. straddles ns sp i \<and> (\<forall>j. i < j \<and> j < k \<longrightarrow> \<not> straddles ns sp j) \<and> r = int i"
      then obtain i where "i < k" "straddles ns sp i" "\<forall>j. i < j \<and> j < k \<longrightarrow> \<not> straddles ns sp j" "r = int i"
        by blast
      with False have "i < Suc k \<and> straddles ns sp i \<and> (\<forall>j. i < j \<and> j < Suc k \<longrightarrow> \<not> straddles ns sp j) \<and> r = int i"
        by (auto simp: less_Suc_eq)
      with eq r show ?thesis by auto
    next
      assume "(\<forall>i<k. \<not> straddles ns sp i) \<and> r = sp"
      with False have "(\<forall>i<Suc k. \<not> straddles ns sp i) \<and> r = sp" by (auto simp: less_Suc_eq)
      with eq r show ?thesis by auto
    qed
  qed
qed

lemma scanBackward_range: "scanBackward ns sp k = Inr r \<Longrightarrow> int k \<le> sp \<Longrightarrow> 0 \<le> r \<and> r \<le> sp"
  by (induction k) (auto simp: Let_def split: option.splits if_splits)

subsection \<open>Keep-with-next and the keep-together adjustment\<close>

text \<open>
  Claim C5. \<open>shouldKeepWithNext\<close> is a total boolean function (after the two
  null checks every property read is on an object, so nothing can throw). It
  returns false for a null or absent node and for a node without a next element
  sibling, and it returns true exactly when (1) the node is a heading H1 to H6 and
  the next sibling is a table or an ordered or unordered list, or (2) the node is a
  heading and the next sibling is a paragraph of text length below 100 whose own
  next sibling is a table, or (3) the node is a paragraph whose trimmed text ends
  with a colon and the next sibling is a table or a list.
\<close>

theorem shouldKeepWithNext_spec:
  "shouldKeepWithNext siblings None = False
   \<and> (nodeAt siblings h = None \<longrightarrow> shouldKeepWithNext siblings (Some h) = False)
   \<and> (nextElementSibling siblings h = None \<longrightarrow> shouldKeepWithNext siblings (Some h) = False)
   \<and> shouldKeepWithNext siblings element = keepWithNextSpec siblings element"
proof -
  have none: "shouldKeepWithNext siblings None = False"
    by (simp add: shouldKeepWithNext_def)
  have absent: "nodeAt siblings h = None \<longrightarrow> shouldKeepWithNext siblings (Some h) = False"
    by (simp add: shouldKeepWithNext_def)
  have nonext: "nextElementSibling siblings h = None \<longrightarrow> shouldKeepWithNext siblings (Some h) = False"
    by (simp add: shouldKeepWithNext_def split: option.splits)
  have spec: "shouldKeepWithNext siblings element = keepWithNextSpec siblings element"
  proof (cases element)
    case None
    then show ?thesis by (simp add: shouldKeepWithNext_def keepWithNextSpec_def)
  next
    case (Some e)
    show ?thesis
    proof (cases "nodeAt siblings e")
      case None
      with Some show ?thesis by (simp add: shouldKeepWithNext_def keepWithNextSpec_def)
    next
      case el: (Some el)
      show ?thesis
      proof (cases "nextElementSibling siblings e")
        case None
        with Some el show ?thesis by (simp add: shouldKeepWithNext_def keepWithNextSpec_def)
      next
        case nx: (Some nx)
        show ?thesis
        proof (cases "nextElementSibling siblings nx")
          case None
          with Some el nx show ?thesis
            unfolding shouldKeepWithNext_def keepWithNextSpec_def isTableOrList_def Let_def
            by (simp; blast)
        next
          case af: (Some af)
          with Some el nx show ?thesis
            unfolding shouldKeepWithNext_def keepWithNextSpec_def isTableOrList_def Let_def
            by (simp; blast)
        qed
      qed
    qed
  qed
  from none absent nonext spec show ?thesis by blast
qed

theorem shouldKeepWithNext_spec_witness:
  "nodeAt sampleNodes 9 = None
   \<and> nextElementSibling sampleNodes 6 = None
   \<and> shouldKeepWithNext sampleNodes None = False
   \<and> shouldKeepWithNext sampleNodes (Some 9) = False
   \<and> shouldKeepWithNext sampleNodes (Some 6) = False
   \<and> shouldKeepWithNext sampleNodes (Some 2) = keepWithNextSpec sampleNodes (Some 2)
   \<and> keepWithNextSpec sampleNodes (Some 2)"
proof -
  have a: "nodeAt sampleNodes 9 = None"
    by (simp add: sampleNodes_def nodeAt_def)
  have b: "nextElementSibling sampleNodes 6 = None"
    by (simp add: sampleNodes_def nextElementSibling_def)
  have c: "keepWithNextSpec sampleNodes (Some 2)"
    by code_simp
  from shouldKeepWithNext_spec[of sampleNodes 9 "Some 2"]
       shouldKeepWithNext_spec[of sampleNodes 6 "Some 2"] a b c
  show ?thesis by blast
qed

text \<open>
  Claim C4, as stated for every split index, fails beyond the end of the node
  list: the scan starts at \<open>allNodes[splitIndex - 1]\<close>, which is \<open>undefined\<close>
  there, and reading its \<open>nodeType\<close> raises a \<open>TypeError\<close> instead of returning
  the split index unchanged.
\<close>

theorem adjustSplitForKeepTogether_beyond_end:
  "adjustSplitForKeepTogether [] 1 = Inl TypeError"
  by (simp add: adjustSplitForKeepTogether_def nodeAt_def)

text \<open>
  Claim C4, amended: for every node list and every split index between 0 and the
  length of the list, \<open>adjustSplitForKeepTogether\<close> returns. Scanning the positions
  from \<open>splitIndex - 1\<close> down to 0, it returns the start index of the first
  element whose keep-together group has its last member at a position at or after
  the split index; if there is no such group it returns the split index unchanged.
\<close>

theorem adjustSplitForKeepTogether_straddling:
  assumes "0 \<le> splitIndex" and "splitIndex \<le> int (length allNodes)"
  shows "\<exists>r. adjustSplitForKeepTogether allNodes splitIndex = Inr r \<and>
           ((\<exists>i<nat splitIndex.
                straddles allNodes splitIndex i
                \<and> (\<forall>j. i < j \<and> j < nat splitIndex \<longrightarrow> \<not> straddles allNodes splitIndex j)
                \<and> r = int (hd (getKeepTogetherGroup allNodes i)))
            \<or> ((\<forall>i<nat splitIndex. \<not> straddles allNodes splitIndex i) \<and> r = splitIndex))"
proof -
  from assms have "nat splitIndex \<le> length allNodes" and "int (nat splitIndex) \<le> splitIndex"
    by simp_all
  from scanBackward_char[OF this] show ?thesis
    by (simp add: adjustSplitForKeepTogether_def group_hd)
qed

theorem adjustSplitForKeepTogether_straddling_witness:
  "(0::int) \<le> 3 \<and> 3 \<le> int (length sampleNodes)
   \<and> straddles sampleNodes 3 2
   \<and> adjustSplitForKeepTogether sampleNodes 3 = Inr 2
   \<and> (\<exists>r. adjustSplitForKeepTogether sampleNodes 3 = Inr r \<and>
         ((\<exists>i<nat 3.
              straddles sampleNodes 3 i
              \<and> (\<forall>j. i < j \<and> j < nat 3 \<longrightarrow> \<not> straddles sampleNodes 3 j)
              \<and> r = int (hd (getKeepTogetherGroup sampleNodes i)))
          \<or> ((\<forall>i<nat 3. \<not> straddles sampleNodes 3 i) \<and> r = 3)))"
proof -
  have h1: "(0::int) \<le> 3" by simp
  have h2: "3 \<le> int (length sampleNodes)" by (simp add: sampleNodes_def)
  have s: "straddles sampleNodes 3 2" by code_simp
  have v: "adjustSplitForKeepTogether sampleNodes 3 = Inr 2" by code_simp
  from adjustSplitForKeepTogether_straddling[OF h1 h2] h1 h2 s v
  show ?thesis by blast
qed

text \<open>
  Claim C10. For every node list and every split index that is not negative, a
  value returned by \<open>adjustSplitForKeepTogether\<close> lies between 0 and the split
  index: the adjustment only moves the cut earlier. A value is returned whenever
  the split index does not exceed the length of the list.
\<close>

theorem adjustSplitForKeepTogether_bound:
  assumes "0 \<le> splitIndex"
  shows "(\<forall>r. adjustSplitForKeepTogether allNodes splitIndex = Inr r
              \<longrightarrow> 0 \<le> r \<and> r \<le> splitIndex)
         \<and> (splitIndex \<le> int (length allNodes)
              \<longrightarrow> (\<exists>r. adjustSplitForKeepTogether allNodes splitIndex = Inr r))"
proof -
  have bound: "0 \<le> r \<and> r \<le> splitIndex"
    if "adjustSplitForKeepTogether allNodes splitIndex = Inr r" for r
    using that assms scanBackward_range[of allNodes splitIndex "nat splitIndex" r]
    by (simp add: adjustSplitForKeepTogether_def)
  have returns: "\<exists>r. adjustSplitForKeepTogether allNodes splitIndex = Inr r"
    if "splitIndex \<le> int (length allNodes)"
    using that assms scanBackward_char[of "nat splitIndex" allNodes splitIndex]
    by (auto simp: adjustSplitForKeepTogether_def)
  from bound returns show ?thesis by blast
qed

theorem adjustSplitForKeepTogether_bound_witness:
  "(0::int) \<le> 6 \<and> 6 \<le> int (length sampleNodes)
   \<and> adjustSplitForKeepTogether sampleNodes 6 = Inr 5
   \<and> (0::int) \<le> 5 \<and> (5::int) \<le> 6
   \<and> (\<exists>r. adjustSplitForKeepTogether sampleNodes 6 = Inr r)"
proof -
  have h: "(0::int) \<le> 6" by simp
  have l: "6 \<le> int (length sampleNodes)" by (simp add: sampleNodes_def)
  have v: "adjustSplitForKeepTogether sampleNodes 6 = Inr 5" by code_simp
  from adjustSplitForKeepTogether_bound[OF h, of sampleNodes] v l
  show ?thesis by simp
qed

subsection \<open>The split index\<close>

lemma cumulativeHeight_scrollAfter:
  "cumulativeHeight L t ns i = scrollAfter L t ns (Suc i)"
  unfolding cumulativeHeight_def
  by (induction i) (simp_all add: nodeHeightAt_def)

lemma scrollAfter_Cons:
  "scrollAfter L (t\<lparr>clones := clones t @ [n]\<rparr>) rest k = scrollAfter L t (n # rest) (Suc k)"
  by (simp add: scrollAfter_def)

lemma measurable_Cons:
  assumes "measurable L t (n # rest)"
  shows "measurable L (t\<lparr>clones := clones t @ [n]\<rparr>) rest"
    and "\<exists>h. sandboxScrollHeight L (t\<lparr>clones := clones t @ [n]\<rparr>) = Inr h"
proof -
  show "measurable L (t\<lparr>clones := clones t @ [n]\<rparr>) rest"
    unfolding measurable_def
  proof (intro allI impI)
    fix k assume "k < length rest"
    then have "Suc k < length (n # rest)" by simp
    with assms obtain h where
      "sandboxScrollHeight L (t\<lparr>clones := clones t @ take (Suc (Suc k)) (n # rest)\<rparr>) = Inr h"
      unfolding measurable_def by blast
    then show "\<exists>h. sandboxScrollHeight L
        (t\<lparr>clones := clones t @ [n]\<rparr>\<lparr>clones := clones (t\<lparr>clones := clones t @ [n]\<rparr>) @ take (Suc k) rest\<rparr>) = Inr h"
      by simp
  qed
  from assms have "\<exists>h. sandboxScrollHeight L (t\<lparr>clones := clones t @ take (Suc 0) (n # rest)\<rparr>) = Inr h"
    unfolding measurable_def by (metis length_Cons zero_less_Suc)
  then show "\<exists>h. sandboxScrollHeight L (t\<lparr>clones := clones t @ [n]\<rparr>) = Inr h" by simp
qed

lemma measureNodes_char:
  "measurable L t rest \<Longrightarrow>
   \<exists>r. snd (measureNodes L av t rest i cur) = Inr r \<and>
     ((r = - 1 \<and> (\<forall>k<length rest. scrollAfter L t rest (Suc k) \<le> av))
      \<or> (\<exists>k<length rest. r = int (i + k) \<and> scrollAfter L t rest (Suc k) > av
            \<and> (\<forall>j<k. scrollAfter L t rest (Suc j) \<le> av)))"
proof (induction rest arbitrary: t i cur)
  case Nil
  then show ?case by simp
next
  case (Cons n rest)
  let ?t = "t\<lparr>clones := clones t @ [n]\<rparr>"
  from measurable_Cons[OF Cons.prems] obtain h where
    m: "measurable L ?t rest" and h: "sandboxScrollHeight L ?t = Inr h" by blast
  have h1: "scrollAfter L t (n # rest) (Suc 0) = h"
    using h by (simp add: scrollAfter_def)
  show ?case
  proof (cases "h > av")
    case True
    then have "snd (measureNodes L av t (n # rest) i cur) = Inr (int i)"
      using h by (simp add: Let_def)
    with True h1 show ?thesis by auto
  next
    case False
    then have eq: "measureNodes L av t (n # rest) i cur = measureNodes L av ?t rest (Suc i) h"
      using h by (simp add: Let_def)
    from Cons.IH[OF m, of "Suc i" h] obtain r where
      r: "snd (measureNodes L av ?t rest (Suc i) h) = Inr r" and
      c: "(r = - 1 \<and> (\<forall>k<length rest. scrollAfter L ?t rest (Suc k) \<le> av))
      \<or> (\<exists>k<length rest. r = int (Suc i + k) \<and> scrollAfter L ?t rest (Suc k) > av
            \<and> (\<forall>j<k. scrollAfter L ?t rest (Suc j) \<le> av))" by blast
    from c show ?thesis
    proof
      assume a: "r = - 1 \<and> (\<forall>k<length rest. scrollAfter L ?t rest (Suc k) \<le> av)"
      have "\<forall>k<length (n # rest). scrollAfter L t (n # rest) (Suc k) \<le> av"
      proof (intro allI impI)
        fix k assume "k < length (n # rest)"
        then show "scrollAfter L t (n # rest) (Suc k) \<le> av"
          using a False h1 by (cases k) (auto simp: scrollAfter_Cons)
      qed
      with a r eq show ?thesis by auto
    next
      assume "\<exists>k<length rest. r = int (Suc i + k) \<and> scrollAfter L ?t rest (Suc k) > av
            \<and> (\<forall>j<k. scrollAfter L ?t rest (Suc j) \<le> av)"
      then obtain k where k: "k < length rest" "r = int (Suc i + k)"
        "scrollAfter L ?t rest (Suc k) > av" "\<forall>j<k. scrollAfter L ?t rest (Suc j) \<le> av" by blast
      have below: "\<forall>j<Suc k. scrollAfter L t (n # rest) (Suc j) \<le> av"
      proof (intro allI impI)
        fix j assume "j < Suc k"
        then show "scrollAfter L t (n # rest) (Suc j) \<le> av"
          using k(4) False h1 by (cases j) (auto simp: scrollAfter_Cons)
      qed
      have "Suc k < length (n # rest) \<and> r = int (i + Suc k)
          \<and> scrollAfter L t (n # rest) (Suc (Suc k)) > av"
        using k by (simp add: scrollAfter_Cons)
      with below r eq show ?thesis by metis
    qed
  qed
qed

text \<open>
  Claim C3. For every list of nodes whose measurements succeed and every available
  height, the measurement loop of \<open>handlePageOverflow\<close> returns the least
  index \<open>i\<close> at which the cumulative height of the nodes 0 to \<open>i\<close> strictly
  exceeds the available height, and \<open>- 1\<close> when no prefix exceeds it; when the
  first node alone exceeds the available height it returns 0. (Heights are whole
  numbers, so \<open>currentHeight + nodeHeight\<close> is exactly the reading of the
  container.)
\<close>

theorem measureNodes_least_index:
  assumes "measurable L tempDiv allNodes"
  shows "\<exists>r. snd (measureNodes L availableHeight tempDiv allNodes 0 0) = Inr r \<and>
     ((r = - 1 \<and> (\<forall>i<length allNodes. cumulativeHeight L tempDiv allNodes i \<le> availableHeight))
      \<or> (0 \<le> r \<and> nat r < length allNodes
          \<and> cumulativeHeight L tempDiv allNodes (nat r) > availableHeight
          \<and> (\<forall>j<nat r. cumulativeHeight L tempDiv allNodes j \<le> availableHeight)))
     \<and> (allNodes \<noteq> [] \<and> cumulativeHeight L tempDiv allNodes 0 > availableHeight \<longrightarrow> r = 0)"
proof -
  from measureNodes_char[OF assms, of availableHeight 0 0] obtain r where
    r: "snd (measureNodes L availableHeight tempDiv allNodes 0 0) = Inr r" and
    c: "(r = - 1 \<and> (\<forall>k<length allNodes. cumulativeHeight L tempDiv allNodes k \<le> availableHeight))
      \<or> (\<exists>k<length allNodes. r = int k \<and> cumulativeHeight L tempDiv allNodes k > availableHeight
            \<and> (\<forall>j<k. cumulativeHeight L tempDiv allNodes j \<le> availableHeight))"
    unfolding cumulativeHeight_scrollAfter by auto
  have first: "r = 0" if "allNodes \<noteq> []" "cumulativeHeight L tempDiv allNodes 0 > availableHeight"
  proof -
    from that(1) have "0 < length allNodes" by simp
    with c that(2) show ?thesis by (metis not_less of_nat_0 neq0_conv)
  qed
  from c have "(r = - 1 \<and> (\<forall>i<length allNodes. cumulativeHeight L tempDiv allNodes i \<le> availableHeight))
      \<or> (0 \<le> r \<and> nat r < length allNodes
          \<and> cumulativeHeight L tempDiv allNodes (nat r) > availableHeight
          \<and> (\<forall>j<nat r. cumulativeHeight L tempDiv allNodes j \<le> availableHeight))"
    by auto
  with r first show ?thesis by blast
qed

theorem measureNodes_least_index_witness:
  "measurable sampleLayout freshContainer (childNodes threeParagraphs)
   \<and> snd (measureNodes sampleLayout 864 freshContainer (childNodes threeParagraphs) 0 0) = Inr 1
   \<and> cumulativeHeight sampleLayout freshContainer (childNodes threeParagraphs) 0 = 500
   \<and> cumulativeHeight sampleLayout freshContainer (childNodes threeParagraphs) 1 = 1000
   \<and> snd (measureNodes sampleLayout 400 freshContainer (childNodes threeParagraphs) 0 0) = Inr 0
   \<and> snd (measureNodes sampleLayout 2000 freshContainer (childNodes threeParagraphs) 0 0)
       = Inr (- 1)
   \<and> (\<exists>r. snd (measureNodes sampleLayout 864 freshContainer (childNodes threeParagraphs) 0 0)
             = Inr r
          \<and> 0 \<le> r \<and> nat r < length (childNodes threeParagraphs)
          \<and> cumulativeHeight sampleLayout freshContainer (childNodes threeParagraphs) (nat r) > 864)"
proof -
  have m: "measurable sampleLayout freshContainer (childNodes threeParagraphs)"
    by (simp add: measurable_def sampleLayout_def)
  have v: "snd (measureNodes sampleLayout 864 freshContainer (childNodes threeParagraphs) 0 0)
             = Inr 1"
    by code_simp
  have c0: "cumulativeHeight sampleLayout freshContainer (childNodes threeParagraphs) 0 = 500"
    by code_simp
  have c1: "cumulativeHeight sampleLayout freshContainer (childNodes threeParagraphs) 1 = 1000"
    by code_simp
  have lo: "snd (measureNodes sampleLayout 400 freshContainer (childNodes threeParagraphs) 0 0)
              = Inr 0"
    by code_simp
  have hi: "snd (measureNodes sampleLayout 2000 freshContainer (childNodes threeParagraphs) 0 0)
              = Inr (- 1)"
    by code_simp
  from measureNodes_least_index[OF m, of 864] v
  have "\<exists>r. snd (measureNodes sampleLayout 864 freshContainer (childNodes threeParagraphs) 0 0)
             = Inr r
          \<and> 0 \<le> r \<and> nat r < length (childNodes threeParagraphs)
          \<and> cumulativeHeight sampleLayout freshContainer (childNodes threeParagraphs) (nat r) > 864"
    by auto
  with m v c0 c1 lo hi show ?thesis by blast
qed

subsection \<open>The overflow pass\<close>

lemma addNewPage_frame:
  "body (snd (addNewPage s)) = body s"
  "handled (snd (addNewPage s)) = handled s"
  by (simp_all add: addNewPage_def Let_def)

lemma moveContentToNextPage_frame:
  "body (snd (moveContentToNextPage s ns sp nx)) = body s"
  "handled (snd (moveContentToNextPage s ns sp nx)) = handled s"
  by (simp_all add: moveContentToNextPage_def Let_def split: prod.splits option.splits)

lemma handleCursorMovement_frame:
  "body (handleCursorMovement s ns sp nx) = body s"
  "handled (handleCursorMovement s ns sp nx) = handled s"
  by (simp_all add: handleCursorMovement_def)

lemma splitContentAtIndex_frame:
  "body (snd (splitContentAtIndex s c ns sp)) = body s"
  "handled (snd (splitContentAtIndex s c ns sp)) = handled s"
proof -
  show "body (snd (splitContentAtIndex s c ns sp)) = body s"
    using addNewPage_frame(1)[of s]
    by (auto simp: splitContentAtIndex_def Let_def handleCursorMovement_frame
          split: sum.splits prod.splits outcome.splits
          dest!: arg_cong[where f = "\<lambda>r. body (snd r)"] simp: moveContentToNextPage_frame)
  show "handled (snd (splitContentAtIndex s c ns sp)) = handled s"
    using addNewPage_frame(2)[of s]
    by (auto simp: splitContentAtIndex_def Let_def handleCursorMovement_frame
          split: sum.splits prod.splits outcome.splits
          dest!: arg_cong[where f = "\<lambda>r. handled (snd r)"] simp: moveContentToNextPage_frame)
qed

lemma handlePageOverflow_handled:
  "handled (snd (handlePageOverflow L s c a av)) = handled s @ [c]"
  by (simp add: handlePageOverflow_def createMeasurementContainer_def Let_def
        splitContentAtIndex_frame split: prod.splits sum.splits)

lemma handlePageOverflow_body:
  assumes "snd (measureNodes L av (fst (createMeasurementContainer L s a)) (childNodes a) 0 0)
             = Inr splitIndex"
  shows "body (snd (handlePageOverflow L s c a av)) = body s"
proof -
  obtain t r where m: "measureNodes L av
      \<lparr>sandboxCssText = cssText a, sandboxWidth = clientWidth L a, clones = []\<rparr>
      (childNodes a) 0 0 = (t, r)"
    by (cases "measureNodes L av
      \<lparr>sandboxCssText = cssText a, sandboxWidth = clientWidth L a, clones = []\<rparr>
      (childNodes a) 0 0")
  with assms have "r = Inr splitIndex"
    by (simp add: createMeasurementContainer_def Let_def)
  with m show ?thesis
    by (simp add: handlePageOverflow_def createMeasurementContainer_def Let_def
          splitContentAtIndex_frame)
qed

lemma containerCallback_fits:
  assumes "case contentOf (pages s) index of None \<Rightarrow> True | Some a \<Rightarrow> \<not> isOverflowing L a"
  shows "containerCallback L index s = (Returned, s)"
  using assms by (simp add: containerCallback_def isOverflowing_def Let_def split: option.splits)

lemma forEachContainer_fits:
  assumes "noPageOverflows L s" and "\<forall>i\<in>set indices. i < length (pages s)"
  shows "forEachContainer L indices s = (Returned, s)"
  using assms(2)
proof (induction indices)
  case Nil
  then show ?case by simp
next
  case (Cons i indices)
  then have "i < length (pages s)" by simp
  with assms(1) have "case contentOf (pages s) i of None \<Rightarrow> True | Some a \<Rightarrow> \<not> isOverflowing L a"
    by (simp add: noPageOverflows_def list_all_length contentOf_def)
  then have "containerCallback L i s = (Returned, s)" by (rule containerCallback_fits)
  with Cons show ?case by simp
qed

lemma checkPageOverflow_fits:
  assumes "\<not> isProcessingOverflow s" and "noPageOverflows L s"
  shows "checkPageOverflow L s = (Returned, s)"
proof -
  let ?s1 = "s\<lparr>isProcessingOverflow := True\<rparr>"
  from assms(2) have "noPageOverflows L ?s1" by (simp add: noPageOverflows_def)
  then have "forEachContainer L [0 ..< length (pages ?s1)] ?s1 = (Returned, ?s1)"
    by (rule forEachContainer_fits) simp
  with assms(1) show ?thesis by (simp add: checkPageOverflow_def)
qed

lemma checkPageOverflow_flag:
  "isProcessingOverflow (snd (checkPageOverflow L s)) = isProcessingOverflow s"
  by (simp add: checkPageOverflow_def Let_def split: prod.splits)

text \<open>
  Claim C9. When the pass visits a page that has a content area,
  \<open>handlePageOverflow\<close> is called for that page if and only if the scroll
  height of the content strictly exceeds its client height plus 2; a difference of
  at most 2 units triggers nothing and leaves the state as it was. The handling
  runs with the client height as the available height.
\<close>

theorem overflow_threshold:
  assumes "contentOf (pages s) index = Some contentArea"
  shows "handled (snd (containerCallback L index s))
           = (if scrollHeight L contentArea > clientHeight L contentArea + 2
              then handled s @ [index] else handled s)
         \<and> (scrollHeight L contentArea - clientHeight L contentArea \<le> 2
              \<longrightarrow> containerCallback L index s = (Returned, s))
         \<and> (isOverflowing L contentArea
              \<longrightarrow> containerCallback L index s
                    = handlePageOverflow L s index contentArea (clientHeight L contentArea))"
  using assms
  by (simp add: containerCallback_def Let_def handlePageOverflow_handled isOverflowing_def)

theorem overflow_threshold_witness:
  "contentOf (pages onePage) 0 = Some threeParagraphs
   \<and> containerCallback (layoutWithScroll 866) 0 onePage = (Returned, onePage)
   \<and> handled (snd (containerCallback (layoutWithScroll 866) 0 onePage)) = []
   \<and> handled (snd (containerCallback (layoutWithScroll 867) 0 onePage)) = [0]
   \<and> isOverflowing (layoutWithScroll 867) threeParagraphs"
proof -
  have c: "contentOf (pages onePage) 0 = Some threeParagraphs"
    by (simp add: onePage_def mkState_def contentOf_def)
  have h: "handled onePage = []" by (simp add: onePage_def mkState_def)
  have lo: "scrollHeight (layoutWithScroll 866) threeParagraphs = 866"
    and hi: "scrollHeight (layoutWithScroll 867) threeParagraphs = 867"
    and ch: "clientHeight (layoutWithScroll 866) threeParagraphs = 864"
      "clientHeight (layoutWithScroll 867) threeParagraphs = 864"
    by (simp_all add: layoutWithScroll_def sampleLayout_def)
  have o: "isOverflowing (layoutWithScroll 867) threeParagraphs"
    by (simp add: isOverflowing_def hi ch)
  from overflow_threshold[OF c, of "layoutWithScroll 866"] lo ch
  have a: "containerCallback (layoutWithScroll 866) 0 onePage = (Returned, onePage)"
    by simp
  from overflow_threshold[OF c, of "layoutWithScroll 867"] hi ch h
  have b: "handled (snd (containerCallback (layoutWithScroll 867) 0 onePage)) = [0]"
    by simp
  from a b c h o show ?thesis by simp
qed

text \<open>
  Claim C2, as stated for every invocation, fails for a call made while the flag
  is set: the guard returns at once, and the flag is still set immediately after
  the call returns.
\<close>

theorem checkPageOverflow_guarded_call_keeps_flag:
  "isProcessingOverflow passActive
   \<and> checkPageOverflow sampleLayout passActive = (Returned, passActive)
   \<and> isProcessingOverflow (snd (checkPageOverflow sampleLayout passActive))"
  by (simp add: checkPageOverflow_def passActive_def)

text \<open>
  Claim C2, amended: a call of \<open>checkPageOverflow\<close> made while the reentrancy
  flag is set does no work and returns at once, leaving the state, the flag
  included, as it was. For every call made while the flag is clear, the flag is
  false immediately after the call returns or throws, also when a handling step
  throws.
\<close>

theorem checkPageOverflow_reentrancy:
  "(isProcessingOverflow s \<longrightarrow> checkPageOverflow L s = (Returned, s))
   \<and> (\<not> isProcessingOverflow s \<longrightarrow>
        (\<exists>result s'. checkPageOverflow L s = (result, s') \<and> \<not> isProcessingOverflow s'))"
  by (simp add: checkPageOverflow_def Let_def split: prod.splits)

theorem checkPageOverflow_reentrancy_witness:
  "\<not> isProcessingOverflow brokenNextPage
   \<and> fst (checkPageOverflow sampleLayout brokenNextPage) = Threw TypeError
   \<and> \<not> isProcessingOverflow (snd (checkPageOverflow sampleLayout brokenNextPage))
   \<and> isProcessingOverflow passActive
   \<and> checkPageOverflow sampleLayout passActive = (Returned, passActive)"
proof -
  have a: "\<not> isProcessingOverflow brokenNextPage"
    by (simp add: brokenNextPage_def mkState_def)
  have b: "fst (checkPageOverflow sampleLayout brokenNextPage) = Threw TypeError"
    by code_simp
  have c: "isProcessingOverflow passActive" by (simp add: passActive_def)
  from checkPageOverflow_reentrancy[of brokenNextPage sampleLayout]
       checkPageOverflow_reentrancy[of passActive sampleLayout]
       a b c
  show ?thesis by auto
qed

text \<open>
  Claim C6, as stated, fails when a measurement step throws:
  \<open>handlePageOverflow\<close> removes the measurement container with a plain
  statement after the loop, not in a \<open>finally\<close> block, so an exception raised
  while the loop measures leaves the container, with the clones appended so far,
  attached to the document body.
\<close>

theorem handlePageOverflow_leaks_container:
  "body onePage = []
   \<and> handlePageOverflow failingLayout onePage 0 threeParagraphs 864
       = (Threw MeasurementError,
          onePage\<lparr>body := [\<lparr>sandboxCssText = [], sandboxWidth = 624,
                              clones = [elementNode 1 ''P'' ''a'']\<rparr>],
                   handled := [0]\<rparr>)"
  by code_simp

text \<open>
  Claim C6, amended: whenever the measurement loop completes,
  \<open>handlePageOverflow\<close> leaves the document body as it found it on every exit
  path: the early return when no split is needed, the normal return after the
  split, and an exception thrown by the split or move step, which runs after the
  container has been removed.
\<close>

theorem handlePageOverflow_releases_container:
  assumes "snd (measureNodes L availableHeight
                  (fst (createMeasurementContainer L s contentArea))
                  (childNodes contentArea) 0 0) = Inr splitIndex"
  shows "\<exists>result s'. handlePageOverflow L s container contentArea availableHeight = (result, s')
           \<and> body s' = body s"
  using handlePageOverflow_body[OF assms, of container]
  by (cases "handlePageOverflow L s container contentArea availableHeight") simp

theorem handlePageOverflow_releases_container_witness:
  "snd (measureNodes sampleLayout 864
          (fst (createMeasurementContainer sampleLayout brokenNextPage threeParagraphs))
          (childNodes threeParagraphs) 0 0) = Inr 1
   \<and> fst (handlePageOverflow sampleLayout brokenNextPage 0 threeParagraphs 864) = Threw TypeError
   \<and> body (snd (handlePageOverflow sampleLayout brokenNextPage 0 threeParagraphs 864))
       = body brokenNextPage
   \<and> body brokenNextPage = []"
proof -
  have m: "snd (measureNodes sampleLayout 864
          (fst (createMeasurementContainer sampleLayout brokenNextPage threeParagraphs))
          (childNodes threeParagraphs) 0 0) = Inr 1"
    by code_simp
  have t: "fst (handlePageOverflow sampleLayout brokenNextPage 0 threeParagraphs 864)
             = Threw TypeError"
    by code_simp
  have b: "body brokenNextPage = []" by (simp add: brokenNextPage_def mkState_def)
  from handlePageOverflow_releases_container[OF m, of 0] m t b
  show ?thesis by auto
qed

text \<open>
  Claim C8, as stated, fails: a pass does not visit the pages it creates, so
  content pushed onto a new page can still overflow it. With three paragraphs of
  500 units on one page of 864 units, the first call creates page 2 and moves two
  paragraphs there; the second call, with no change in between, creates page 3
  and moves a paragraph again.
\<close>

theorem checkPageOverflow_second_pass_moves:
  "pageCount afterFirstPass = 2 \<and> pageCount afterSecondPass = 3
   \<and> map (map nid \<circ> pageNodes) (pages afterFirstPass) = [[1], [2, 3, 4]]
   \<and> map (map nid \<circ> pageNodes) (pages afterSecondPass) = [[1], [2], [3, 4, 5]]"
  by code_simp

text \<open>
  Claim C8, amended: when the first call of \<open>checkPageOverflow\<close> leaves no
  content area overflowing by more than the tolerance, a second call in
  succession returns the state of the first unchanged: no node is moved, no page
  is created and the page count stays.
\<close>

theorem checkPageOverflow_idempotent_when_settled:
  assumes "noPageOverflows L (snd (checkPageOverflow L s))"
  shows "checkPageOverflow L (snd (checkPageOverflow L s))
           = (Returned, snd (checkPageOverflow L s))"
proof (cases "isProcessingOverflow s")
  case True
  then show ?thesis by (simp add: checkPageOverflow_def)
next
  case False
  then have "\<not> isProcessingOverflow (snd (checkPageOverflow L s))"
    by (simp add: checkPageOverflow_flag)
  then show ?thesis using assms by (rule checkPageOverflow_fits)
qed

theorem checkPageOverflow_idempotent_when_settled_witness:
  "noPageOverflows sampleLayout (snd (checkPageOverflow sampleLayout afterFirstPass))
   \<and> checkPageOverflow sampleLayout (snd (checkPageOverflow sampleLayout afterFirstPass))
       = (Returned, snd (checkPageOverflow sampleLayout afterFirstPass))
   \<and> pageCount (snd (checkPageOverflow sampleLayout afterFirstPass)) = 3"
proof -
  have n: "noPageOverflows sampleLayout (snd (checkPageOverflow sampleLayout afterFirstPass))"
    by code_simp
  have p: "pageCount (snd (checkPageOverflow sampleLayout afterFirstPass)) = 3"
    by code_simp
  from checkPageOverflow_idempotent_when_settled[OF n] n p
  show ?thesis by simp
qed

subsection \<open>Moving content and conservation\<close>

lemma documentNodes_append [simp]:
  "documentNodes (A @ B) = documentNodes A @ documentNodes B"
  by (simp add: documentNodes_def)

lemma documentNodes_Cons [simp]:
  "documentNodes (p # B) = pageNodes p @ documentNodes B"
  by (simp add: documentNodes_def)

lemma documentNodes_Nil [simp]: "documentNodes [] = []"
  by (simp add: documentNodes_def)

lemma pageNodes_content [simp]:
  "pageNodes (p\<lparr>content := Some a\<rparr>) = childNodes a"
  by (simp add: pageNodes_def)

lemma pageNodes_Some: "content p = Some a \<Longrightarrow> pageNodes p = childNodes a"
  by (simp add: pageNodes_def)

lemma absent_neq:
  "nid n \<notin> nid ` set xs \<Longrightarrow> \<forall>m\<in>set xs. nid m \<noteq> nid n"
  by force

lemma removeNode_absent:
  "nid n \<notin> nid ` set xs \<Longrightarrow> removeNode n xs = xs"
  using absent_neq[of n xs] by (simp add: removeNode_def filter_id_conv)

lemma removeFromPage_absent:
  assumes "nid n \<notin> nid ` set (pageNodes p)"
  shows "removeFromPage n p = p"
proof (cases "content p")
  case None
  then show ?thesis by (simp add: removeFromPage_def)
next
  case (Some a)
  with assms have "removeNode n (childNodes a) = childNodes a"
    by (intro removeNode_absent) (simp add: pageNodes_def)
  with Some show ?thesis by (simp add: removeFromPage_def)
qed

lemma removeFromPages_absent:
  assumes "nid n \<notin> nid ` set (documentNodes ps)"
  shows "map (removeFromPage n) ps = ps"
  using assms
proof (induction ps)
  case Nil
  then show ?case by simp
next
  case (Cons p ps)
  then have "nid n \<notin> nid ` set (pageNodes p)" and "nid n \<notin> nid ` set (documentNodes ps)"
    by auto
  with Cons.IH show ?case by (simp add: removeFromPage_absent)
qed

lemma removeNode_middle:
  assumes "distinct (map nid (pre @ n # suf))"
  shows "removeNode n (pre @ n # suf) = pre @ suf"
proof -
  from assms have "nid n \<notin> nid ` set pre" and "nid n \<notin> nid ` set suf" by auto
  then have "removeNode n pre = pre" and "removeNode n suf = suf"
    by (simp_all add: removeNode_absent)
  then show ?thesis by (simp add: removeNode_def)
qed

lemma appendToFragment_snapshot:
  assumes "content p = Some a" and "childNodes a = pre @ suf"
    and "distinct (map nid (F @ documentNodes (A @ p # B)))"
  shows "appendToFragment suf (F, A @ p # B)
           = (F @ suf, A @ p\<lparr>content := Some (a\<lparr>childNodes := pre\<rparr>)\<rparr> # B)"
  using assms
proof (induction suf arbitrary: F p a)
  case Nil
  then have "a\<lparr>childNodes := pre\<rparr> = a" by simp
  with Nil have "p\<lparr>content := Some (a\<lparr>childNodes := pre\<rparr>)\<rparr> = p" by simp
  then show ?case by simp
next
  case (Cons n suf)
  let ?a = "a\<lparr>childNodes := pre @ suf\<rparr>"
  let ?p = "p\<lparr>content := Some ?a\<rparr>"
  have pn: "pageNodes p = pre @ n # suf"
    using Cons.prems(1,2) by (simp add: pageNodes_def)
  from Cons.prems(3) pn have d: "distinct (map nid (F @ documentNodes A @ (pre @ n # suf) @ documentNodes B))"
    by simp
  have par: "hasParent (A @ p # B) F n"
    using pn by (simp add: hasParent_def)
  from d have nF: "nid n \<notin> nid ` set F" and nA: "nid n \<notin> nid ` set (documentNodes A)"
    and nB: "nid n \<notin> nid ` set (documentNodes B)" and dp: "distinct (map nid (pre @ n # suf))"
    by auto
  have rp: "removeFromPage n p = ?p"
    using Cons.prems(1,2) removeNode_middle[OF dp] by (simp add: removeFromPage_def)
  have step: "appendToFragment (n # suf) (F, A @ p # B)
       = appendToFragment suf (F @ [n], A @ ?p # B)"
    using par nF nA nB rp
    by (simp add: removeNode_absent removeFromPages_absent)
  have d': "distinct (map nid ((F @ [n]) @ documentNodes (A @ ?p # B)))"
    using d by auto
  have "appendToFragment suf (F @ [n], A @ ?p # B)
      = ((F @ [n]) @ suf, A @ ?p\<lparr>content := Some (?a\<lparr>childNodes := pre\<rparr>)\<rparr> # B)"
    by (rule Cons.IH[OF _ _ d']) simp_all
  with step show ?case by simp
qed

lemma slice_nonneg: "0 \<le> k \<Longrightarrow> slice xs k = drop (nat k) xs"
  by (simp add: slice_def)

lemma moveContentToNextPage_snapshot:
  assumes "pages s = A @ p # q # B" and "content p = Some a"
    and "wellFormed (pages s)" and "0 \<le> k"
  shows "moveContentToNextPage s (childNodes a) k (Suc (length A)) =
     (case content q of
        None \<Rightarrow>
          (Threw TypeError,
           s\<lparr>pages := A @ p\<lparr>content := Some (a\<lparr>childNodes := take (nat k) (childNodes a)\<rparr>)\<rparr> # q # B\<rparr>)
      | Some d \<Rightarrow>
          (Returned,
           s\<lparr>pages := A @ p\<lparr>content := Some (a\<lparr>childNodes := take (nat k) (childNodes a)\<rparr>)\<rparr>
                 # q\<lparr>content := Some (d\<lparr>childNodes :=
                        drop (nat k) (childNodes a)
                          @ (if hasPlaceholder d then [] else childNodes d)\<rparr>)\<rparr>
                 # B\<rparr>))"
proof -
  let ?p = "p\<lparr>content := Some (a\<lparr>childNodes := take (nat k) (childNodes a)\<rparr>)\<rparr>"
  have split: "childNodes a = take (nat k) (childNodes a) @ drop (nat k) (childNodes a)" by simp
  have d: "distinct (map nid ([] @ documentNodes (A @ p # q # B)))"
    using assms(1,3) by (simp add: wellFormed_def)
  have frag: "appendToFragment (drop (nat k) (childNodes a)) ([], A @ p # q # B)
      = ([] @ drop (nat k) (childNodes a), A @ ?p # q # B)"
    by (rule appendToFragment_snapshot[OF assms(2) split d])
  have nth: "contentOf (A @ ?p # q # B) (Suc (length A)) = content q"
    by (simp add: contentOf_def nth_append)
  have nth': "(A @ ?p # q # B) ! Suc (length A) = q"
    by (simp add: nth_append)
  have upd: "(A @ ?p # q # B)[Suc (length A) := x] = A @ ?p # x # B" for x
    by (simp add: list_update_append)
  show ?thesis
    by (cases "content q")
       (simp_all add: moveContentToNextPage_def slice_nonneg[OF assms(4)] assms(1) frag
          nth nth' upd Let_def hasPlaceholder_def)
qed

lemma fold_max_upper: "x \<in> set xs \<Longrightarrow> x \<le> fold max xs (b::nat)"
proof (induction xs arbitrary: b)
  case Nil
  then show ?case by simp
next
  case (Cons y ys)
  have mono: "b \<le> fold max ys b" for b :: nat
    by (induction ys arbitrary: b) (auto intro: order_trans[OF max.cobounded2])
  from Cons show ?case
  proof (cases "x = y")
    case True
    then show ?thesis using mono[of "max y b"] by simp
  next
    case False
    with Cons show ?thesis by simp
  qed
qed

lemma freshNid_fresh: "freshNid ps \<notin> nid ` set (documentNodes ps)"
proof
  assume "freshNid ps \<in> nid ` set (documentNodes ps)"
  then have "freshNid ps \<in> set (map nid (documentNodes ps))" by simp
  then have "freshNid ps \<le> fold max (map nid (documentNodes ps)) 0"
    by (rule fold_max_upper)
  then show False by (simp add: freshNid_def)
qed

lemma template_no_placeholder:
  "\<not> includesStr ([CHR 0x0A] @ ''      '') ''Continue your content here''"
  by code_simp

lemma splitContentAtIndex_Returned:
  assumes "splitContentAtIndex s c ns sp = (Returned, s')"
  obtains k nx s1 s2 where
    "adjustSplitForKeepTogether ns sp = Inr k"
    "(if Suc c < length (pages s) then (Inr (Suc c), s) else addNewPage s) = (Inr nx, s1)"
    "moveContentToNextPage s1 ns k nx = (Returned, s2)"
    "pages s' = pages s2"
proof -
  from assms obtain k where k: "adjustSplitForKeepTogether ns sp = Inr k"
    by (cases "adjustSplitForKeepTogether ns sp") (simp_all add: splitContentAtIndex_def)
  obtain e s1 where es: "(if Suc c < length (pages s) then (Inr (Suc c), s) else addNewPage s) = (e, s1)"
    by (cases "(if Suc c < length (pages s) then (Inr (Suc c), s) else addNewPage s)") blast
  from assms k es obtain nx where nx: "e = Inr nx"
    by (cases e) (simp_all add: splitContentAtIndex_def)
  obtain o2 s2 where m: "moveContentToNextPage s1 ns k nx = (o2, s2)"
    by (cases "moveContentToNextPage s1 ns k nx") blast
  from assms k es nx m have o2: "o2 = Returned"
    by (cases o2) (simp_all add: splitContentAtIndex_def)
  from assms k es nx m o2 have "pages s' = pages s2"
    by (auto simp: splitContentAtIndex_def Let_def handleCursorMovement_def split: if_splits)
  with k es nx m o2 that show ?thesis by blast
qed

lemma adjust_nonneg:
  assumes "adjustSplitForKeepTogether ns sp = Inr k" and "0 \<le> sp"
  shows "0 \<le> k"
  using assms scanBackward_range[of ns sp "nat sp" k]
  by (simp add: adjustSplitForKeepTogether_def)

lemma measureNodes_range:
  "snd (measureNodes L av t rest i cur) = Inr r \<Longrightarrow> 0 \<le> r \<Longrightarrow> r < int (i + length rest)"
proof (induction rest arbitrary: t i cur)
  case Nil
  then show ?case by simp
next
  case (Cons n rest)
  let ?t = "t\<lparr>clones := clones t @ [n]\<rparr>"
  show ?case
  proof (cases "sandboxScrollHeight L ?t")
    case (Inl e)
    with Cons.prems show ?thesis by (simp add: Let_def)
  next
    case (Inr h)
    show ?thesis
    proof (cases "cur + (h - cur) > av")
      case True
      with Cons.prems Inr show ?thesis by (simp add: Let_def)
    next
      case False
      with Cons.prems Inr have "snd (measureNodes L av ?t rest (Suc i) h) = Inr r"
        by (simp add: Let_def)
      from Cons.IH[OF this Cons.prems(2)] show ?thesis by simp
    qed
  qed
qed

lemma handlePageOverflow_split:
  assumes "handlePageOverflow L s c a av = (Returned, s')"
  obtains "pages s' = pages s"
  | sp s2 where "0 \<le> sp" "sp < int (length (childNodes a))" "pages s2 = pages s"
      "splitContentAtIndex s2 c (childNodes a) sp = (Returned, s')"
proof -
  let ?t = "\<lparr>sandboxCssText = cssText a, sandboxWidth = clientWidth L a, clones = []\<rparr>"
  let ?s1 = "s\<lparr>handled := handled s @ [c], body := body s @ [?t]\<rparr>"
  obtain t r where m: "measureNodes L av ?t (childNodes a) 0 0 = (t, r)"
    by (cases "measureNodes L av ?t (childNodes a) 0 0")
  from assms m obtain sp where r: "r = Inr sp"
    by (cases r) (simp_all add: handlePageOverflow_def createMeasurementContainer_def Let_def)
  show ?thesis
  proof (cases "0 \<le> sp")
    case True
    with assms m r have "splitContentAtIndex (?s1\<lparr>body := butlast (body ?s1)\<rparr>) c (childNodes a) sp
        = (Returned, s')"
      by (simp add: handlePageOverflow_def createMeasurementContainer_def Let_def)
    moreover from m r True have "sp < int (length (childNodes a))"
      using measureNodes_range[of L av ?t "childNodes a" 0 0 sp] by simp
    ultimately show ?thesis
      using True that(2)[of sp "?s1\<lparr>body := butlast (body ?s1)\<rparr>"] by simp
  next
    case False
    with assms m r have "pages s' = pages s"
      by (auto simp: handlePageOverflow_def createMeasurementContainer_def Let_def)
    with that(1) show ?thesis .
  qed
qed

lemma adjust_upper:
  assumes "adjustSplitForKeepTogether ns sp = Inr k" and "0 \<le> sp"
  shows "k \<le> sp"
  using assms scanBackward_range[of ns sp "nat sp" k]
  by (simp add: adjustSplitForKeepTogether_def)

lemma splitContentAtIndex_shape:
  assumes ps: "pages s = A @ p # rest" and c: "content p = Some a"
    and wf: "wellFormed (pages s)" and sp: "0 \<le> sp" and lt: "sp < int (length (childNodes a))"
    and r: "splitContentAtIndex s (length A) (childNodes a) sp = (Returned, s')"
  obtains (moved) q B d k where "rest = q # B" "content q = Some d" "k < length (childNodes a)"
      "pages s' = A @ p\<lparr>content := Some (a\<lparr>childNodes := take k (childNodes a)\<rparr>)\<rparr>
                 # q\<lparr>content := Some (d\<lparr>childNodes :=
                        drop k (childNodes a)
                          @ (if hasPlaceholder d then [] else childNodes d)\<rparr>)\<rparr>
                 # B"
  | (added) q ws k where "rest = []" "k < length (childNodes a)" "nodeType ws = 3"
      "nid ws \<notin> nid ` set (documentNodes (pages s))"
      "pageNodes q = drop k (childNodes a) @ [ws]"
      "pages s' = A @ [p\<lparr>content := Some (a\<lparr>childNodes := take k (childNodes a)\<rparr>)\<rparr>, q]"
proof -
  from r obtain k nx s1 s2 where
    k: "adjustSplitForKeepTogether (childNodes a) sp = Inr k" and
    nx: "(if Suc (length A) < length (pages s) then (Inr (Suc (length A)), s) else addNewPage s)
           = (Inr nx, s1)" and
    m: "moveContentToNextPage s1 (childNodes a) k nx = (Returned, s2)" and
    eq: "pages s' = pages s2"
    by (rule splitContentAtIndex_Returned)
  have k0: "0 \<le> k" using k sp by (rule adjust_nonneg)
  have "k \<le> sp" using k sp by (rule adjust_upper)
  with lt k0 have kl: "nat k < length (childNodes a)" by simp
  let ?p = "p\<lparr>content := Some (a\<lparr>childNodes := take (nat k) (childNodes a)\<rparr>)\<rparr>"
  show ?thesis
  proof (cases rest)
    case (Cons q B)
    with ps nx have s1: "s1 = s" and nxv: "nx = Suc (length A)" by simp_all
    have ps1: "pages s = A @ p # q # B" using ps Cons by simp
    from m[unfolded s1 nxv moveContentToNextPage_snapshot[OF ps1 c wf k0]]
    obtain d where d: "content q = Some d" and
      s2: "s2 = s\<lparr>pages := A @ ?p
                 # q\<lparr>content := Some (d\<lparr>childNodes :=
                        drop (nat k) (childNodes a)
                          @ (if hasPlaceholder d then [] else childNodes d)\<rparr>)\<rparr>
                 # B\<rparr>"
      by (cases "content q") auto
    from eq s2 have "pages s' = A @ ?p
                 # q\<lparr>content := Some (d\<lparr>childNodes :=
                        drop (nat k) (childNodes a)
                          @ (if hasPlaceholder d then [] else childNodes d)\<rparr>)\<rparr>
                 # B" by simp
    with Cons d kl show ?thesis by (rule moved)
  next
    case Nil
    let ?s0 = "s\<lparr>pageCount := Suc (pageCount s)\<rparr>"
    let ?q = "createNewPageElement ?s0"
    from ps Nil nx have s1: "s1 = ?s0\<lparr>pages := pages ?s0 @ [?q]\<rparr>" and nxv: "nx = Suc (length A)"
      by (simp_all add: addNewPage_def Let_def)
    have ps1: "pages s1 = A @ p # ?q # []" using s1 ps Nil by simp
    obtain ws where ws: "content ?q = Some \<lparr>childNodes = [ws],
        cssText = ''height: 9in; min-height: 9in; max-height: 9in;''\<rparr>"
      and wsn: "nid ws = freshNid (pages s)" and wst: "nodeType ws = 3"
      and wsh: "outerHTML ws = [CHR 0x0A] @ ''      ''"
      by (simp add: createNewPageElement_def)
    have dn1: "documentNodes (pages s1) = documentNodes (pages s) @ [ws]"
      unfolding ps1 using ps Nil c ws by (simp add: pageNodes_Some)
    have fr: "nid ws \<notin> nid ` set (documentNodes (pages s))"
      using freshNid_fresh[of "pages s"] wsn by simp
    have wf1: "wellFormed (pages s1)"
      using wf fr unfolding wellFormed_def dn1 by simp
    have nh: "\<not> hasPlaceholder \<lparr>childNodes = [ws],
        cssText = ''height: 9in; min-height: 9in; max-height: 9in;''\<rparr>"
      using template_no_placeholder wsh by (simp add: hasPlaceholder_def innerHTML_def)
    let ?q' = "?q\<lparr>content := Some (\<lparr>childNodes = drop (nat k) (childNodes a) @ [ws],
        cssText = ''height: 9in; min-height: 9in; max-height: 9in;''\<rparr>)\<rparr>"
    from m[unfolded nxv moveContentToNextPage_snapshot[OF ps1 c wf1 k0]] ws nh
    have s2: "pages s2 = A @ ?p # ?q' # []"
      by auto
    have "pageNodes ?q' = drop (nat k) (childNodes a) @ [ws]" by simp
    moreover have "pages s' = A @ [?p, ?q']" using eq s2 by simp
    ultimately show ?thesis using Nil kl wst fr by (intro added[of "nat k" ws ?q']) 
  qed
qed

lemma containerCallback_shape:
  assumes i: "i < length (pages s)" and wf: "wellFormed (pages s)"
    and r: "containerCallback L i s = (Returned, s')"
  obtains (same) "pages s' = pages s"
  | (moved) A p q B a d k where "pages s = A @ p # q # B" "length A = i"
      "content p = Some a" "content q = Some d" "k < length (childNodes a)"
      "pages s' = A @ p\<lparr>content := Some (a\<lparr>childNodes := take k (childNodes a)\<rparr>)\<rparr>
                 # q\<lparr>content := Some (d\<lparr>childNodes :=
                        drop k (childNodes a)
                          @ (if hasPlaceholder d then [] else childNodes d)\<rparr>)\<rparr>
                 # B"
  | (added) A p a q ws k where "pages s = A @ [p]" "length A = i"
      "content p = Some a" "k < length (childNodes a)" "nodeType ws = 3"
      "nid ws \<notin> nid ` set (documentNodes (pages s))"
      "pageNodes q = drop k (childNodes a) @ [ws]"
      "pages s' = A @ [p\<lparr>content := Some (a\<lparr>childNodes := take k (childNodes a)\<rparr>)\<rparr>, q]"
proof (cases "content (pages s ! i)")
  case None
  with r i have "s' = s" by (simp add: containerCallback_def contentOf_def)
  then show ?thesis by (intro same) simp
next
  case (Some a)
  show ?thesis
  proof (cases "scrollHeight L a > clientHeight L a + 2")
    case False
    with r Some i have "s' = s" by (simp add: containerCallback_def contentOf_def Let_def)
    then show ?thesis by (intro same) simp
  next
    case True
    with r Some i have h: "handlePageOverflow L s i a (clientHeight L a) = (Returned, s')"
      by (simp add: containerCallback_def contentOf_def Let_def)
    from h show ?thesis
    proof (cases rule: handlePageOverflow_split)
      case 1
      then show ?thesis by (rule same)
    next
      case (2 sp s2)
      let ?A = "take i (pages s)"
      have dec: "pages s2 = ?A @ (pages s ! i) # drop (Suc i) (pages s)"
        using 2(3) i by (simp add: id_take_nth_drop[symmetric])
      have len: "length ?A = i" using i by simp
      have wf2: "wellFormed (pages s2)" using wf 2(3) by simp
      from 2(4) have sp': "splitContentAtIndex s2 (length ?A) (childNodes a) sp = (Returned, s')"
        using len by simp
      from dec Some wf2 2(1) 2(2) sp' show ?thesis
      proof (cases rule: splitContentAtIndex_shape)
        case (moved q B d k)
        from dec moved(1) 2(3) have "pages s = ?A @ (pages s ! i) # q # B" by simp
        from this len Some moved(2,3,4) show ?thesis
          by (rule that(2))
      next
        case (added q ws k)
        from dec added(1) 2(3) have "pages s = ?A @ [pages s ! i]" by simp
        from this len Some added(2,3) added(4)[unfolded 2(3)] added(5,6) show ?thesis
          by (rule that(3))
      qed
    qed
  qed
qed

lemma carriedNodes_same_length:
  "length ps = n \<Longrightarrow> carriedNodes n ps j = documentNodes (drop j ps)"
  by (simp add: carriedNodes_def)

lemma documentNodes_take_drop:
  "set (documentNodes ps) = set (documentNodes (take j ps)) \<union> set (documentNodes (drop j ps))"
proof -
  have "documentNodes ps = documentNodes (take j ps) @ documentNodes (drop j ps)"
    by (simp only: documentNodes_append[symmetric] append_take_drop_id)
  then show ?thesis by (metis set_append)
qed

lemma filter_present:
  "filter (\<lambda>n. nid n \<in> set (map nid xs)) xs = xs"
  by (rule filter_True) simp

lemma filter_survivors:
  assumes "distinct (map nid (U @ Y @ V))"
  shows "filter (\<lambda>n. nid n \<in> set (map nid (filter P (U @ V)))) (filter P (U @ Y @ V))
           = filter P (U @ V)"
proof -
  let ?Q = "\<lambda>n. nid n \<in> set (map nid (filter P (U @ V)))"
  have "filter ?Q (filter P U) = filter P U" by (rule filter_True) auto
  moreover have "filter ?Q (filter P V) = filter P V" by (rule filter_True) auto
  moreover have "filter ?Q (filter P Y) = []"
    using assms by (intro filter_False) auto
  ultimately show ?thesis by (simp only: filter_append append_Nil)
qed

lemma take_middle:
  "take j (A @ x # y # B) =
     (if j \<le> length A then take j A
      else if j = Suc (length A) then A @ [x]
      else A @ x # y # take (j - Suc (Suc (length A))) B)"
  by (auto simp: take_Cons' not_le Suc_diff_Suc)

lemma containerCallback_step:
  assumes i: "i < length (pages s)" and wf: "wellFormed (pages s)"
    and r: "containerCallback L i s = (Returned, s')"
  shows "wellFormed (pages s')
    \<and> drop (Suc (Suc i)) (pages s') = drop (Suc (Suc i)) (pages s)
    \<and> (length (pages s') = length (pages s) \<or> Suc i = length (pages s))
    \<and> (\<forall>j\<le>length (pages s).
           set (map nid (documentNodes (take j (pages s'))))
             \<subseteq> set (map nid (documentNodes (take j (pages s)))))
    \<and> blockNodes (pages s')
           = filter (\<lambda>n. nid n \<in> set (map nid (blockNodes (pages s')))) (blockNodes (pages s))
    \<and> (\<forall>x\<in>set (documentNodes (pages s)).
           x \<in> set (documentNodes (pages s'))
           \<or> (\<exists>q B. drop (Suc i) (pages s) = q # B \<and> x \<in> set (pageNodes q) \<and> containsPhrase q
                 \<and> (\<exists>y\<in>set (documentNodes (take (Suc i) (pages s))).
                       y \<in> set (carriedNodes (length (pages s)) (pages s') (Suc i)))))
    \<and> (\<forall>j\<le>length (pages s). \<forall>y\<in>set (documentNodes (pages s)).
           y \<in> set (documentNodes (take j (pages s')))
           \<or> y \<in> set (carriedNodes (length (pages s)) (pages s') j)
           \<or> y \<notin> set (documentNodes (pages s')))"
  using i wf r
proof (cases rule: containerCallback_shape)
  case same
  have "y \<in> set (documentNodes (take j (pages s)))
           \<or> y \<in> set (carriedNodes (length (pages s)) (pages s) j)"
    if "y \<in> set (documentNodes (pages s))" for y j
    using that documentNodes_take_drop[of "pages s" j]
    by (simp add: carriedNodes_same_length)
  with same wf filter_present[of "blockNodes (pages s)"] show ?thesis by simp
next
  case (moved A p q B a d k)
  let ?pre = "take k (childNodes a)" and ?suf = "drop k (childNodes a)"
  let ?Y = "if hasPlaceholder d then [] else childNodes d"
  let ?p = "p\<lparr>content := Some (a\<lparr>childNodes := ?pre\<rparr>)\<rparr>"
  let ?q = "q\<lparr>content := Some (d\<lparr>childNodes := ?suf @ ?Y\<rparr>)\<rparr>"
  have ps: "pages s = A @ p # q # B" and ps': "pages s' = A @ ?p # ?q # B"
    using moved by simp_all
  have pn: "pageNodes p = ?pre @ ?suf" and qn: "pageNodes q = childNodes d"
    using moved by (simp_all add: pageNodes_Some)
  have dn: "documentNodes (pages s)
      = (documentNodes A @ ?pre @ ?suf) @ childNodes d @ documentNodes B"
    unfolding ps using pn qn by simp
  have dn': "documentNodes (pages s')
      = (documentNodes A @ ?pre @ ?suf) @ ?Y @ documentNodes B"
    unfolding ps' by simp
  have dist: "distinct (map nid ((documentNodes A @ ?pre @ ?suf) @ childNodes d @ documentNodes B))"
    using wf unfolding wellFormed_def dn .
  have f1: "wellFormed (pages s')"
    unfolding wellFormed_def dn' using dist by auto
  have f2: "drop (Suc (Suc i)) (pages s') = drop (Suc (Suc i)) (pages s)"
    unfolding ps ps' using moved(2) by simp
  have f3: "length (pages s') = length (pages s)" unfolding ps ps' by simp
  have f4: "set (map nid (documentNodes (take j (pages s'))))
           \<subseteq> set (map nid (documentNodes (take j (pages s))))" for j
    unfolding ps ps' take_middle using pn qn
    by (auto simp: dest: in_set_takeD in_set_dropD)
  have f5: "blockNodes (pages s')
         = filter (\<lambda>n. nid n \<in> set (map nid (blockNodes (pages s')))) (blockNodes (pages s))"
  proof (cases "hasPlaceholder d")
    case True
    with dn' have e: "documentNodes (pages s') = (documentNodes A @ ?pre @ ?suf) @ documentNodes B"
      by simp
    show ?thesis
      unfolding blockNodes_def e dn by (rule filter_survivors[OF dist, symmetric])
  next
    case False
    with dn dn' have "documentNodes (pages s') = documentNodes (pages s)" by simp
    then have "blockNodes (pages s') = blockNodes (pages s)" by (simp add: blockNodes_def)
    then show ?thesis using filter_present[of "blockNodes (pages s)"] by simp
  qed
  have car: "carriedNodes (length (pages s)) (pages s') j = documentNodes (drop j (pages s'))" for j
    using f3 by (simp add: carriedNodes_same_length)
  have ne: "?suf \<noteq> []" using moved(5) by simp
  then obtain y where y: "y \<in> set ?suf" by (cases ?suf) auto
  have y1: "y \<in> set (documentNodes (take (Suc i) (pages s)))"
    unfolding ps using moved(2) pn y by (auto dest: in_set_dropD)
  have y2: "y \<in> set (carriedNodes (length (pages s)) (pages s') (Suc i))"
    unfolding car unfolding ps' using moved(2) y by simp
  have dr: "drop (Suc i) (pages s) = q # B" unfolding ps using moved(2) by simp
  have f6: "x \<in> set (documentNodes (pages s'))
         \<or> (\<exists>q B. drop (Suc i) (pages s) = q # B \<and> x \<in> set (pageNodes q) \<and> containsPhrase q
               \<and> (\<exists>y\<in>set (documentNodes (take (Suc i) (pages s))).
                     y \<in> set (carriedNodes (length (pages s)) (pages s') (Suc i))))"
    if x: "x \<in> set (documentNodes (pages s))" for x
  proof (cases "x \<in> set (documentNodes (pages s'))")
    case True
    then show ?thesis ..
  next
    case False
    with x have "hasPlaceholder d" and "x \<in> set (childNodes d)"
      unfolding dn dn' by (auto split: if_splits)
    then have "x \<in> set (pageNodes q)" and "containsPhrase q"
      using qn moved(4) by (simp_all add: containsPhrase_def)
    with dr y1 y2 show ?thesis by blast
  qed
  have f7: "y \<in> set (documentNodes (take j (pages s')))
           \<or> y \<in> set (carriedNodes (length (pages s)) (pages s') j)
           \<or> y \<notin> set (documentNodes (pages s'))" for y j
    unfolding car using documentNodes_take_drop[of "pages s'" j] by blast
  from f1 f2 f3 f4 f5 f6 f7 show ?thesis by simp
next
  case (added A p a q ws k)
  let ?pre = "take k (childNodes a)" and ?suf = "drop k (childNodes a)"
  let ?p = "p\<lparr>content := Some (a\<lparr>childNodes := ?pre\<rparr>)\<rparr>"
  have ps: "pages s = A @ [p]" and ps': "pages s' = A @ [?p, q]"
    using added by simp_all
  have pn: "pageNodes p = ?pre @ ?suf"
    using added by (simp add: pageNodes_Some)
  have dn: "documentNodes (pages s) = documentNodes A @ ?pre @ ?suf"
    unfolding ps using pn by simp
  have dn': "documentNodes (pages s') = documentNodes (pages s) @ [ws]"
    unfolding ps' dn using added(7) by simp
  have f1: "wellFormed (pages s')"
    using wf added(6) unfolding wellFormed_def dn' by simp
  have f2: "drop (Suc (Suc i)) (pages s') = drop (Suc (Suc i)) (pages s)"
    unfolding ps ps' using added(2) by simp
  have f3: "Suc i = length (pages s)" unfolding ps using added(2) by simp
  have f4: "set (map nid (documentNodes (take j (pages s'))))
           \<subseteq> set (map nid (documentNodes (take j (pages s))))" if "j \<le> length (pages s)" for j
  proof (cases "j \<le> length A")
    case True
    then show ?thesis unfolding ps ps' by simp
  next
    case False
    with that have "j = Suc (length A)" unfolding ps by simp
    then show ?thesis unfolding ps ps' using pn by (auto dest: in_set_takeD)
  qed
  have f5: "blockNodes (pages s')
         = filter (\<lambda>n. nid n \<in> set (map nid (blockNodes (pages s')))) (blockNodes (pages s))"
  proof -
    have "blockNodes (pages s') = blockNodes (pages s)"
      using added(5) by (simp add: blockNodes_def dn')
    then show ?thesis using filter_present[of "blockNodes (pages s)"] by simp
  qed
  have f6: "x \<in> set (documentNodes (pages s'))" if "x \<in> set (documentNodes (pages s))" for x
    using that unfolding dn' by simp
  have car: "carriedNodes (length (pages s)) (pages s') j
      = documentNodes (drop j (A @ [?p])) @ ?suf" for j
    unfolding ps ps' using added(7) by (simp add: carriedNodes_def)
  have f7: "y \<in> set (documentNodes (take j (pages s')))
           \<or> y \<in> set (carriedNodes (length (pages s)) (pages s') j)" 
    if y: "y \<in> set (documentNodes (pages s))" and j: "j \<le> length (pages s)" for y j
  proof -
    from j have tk: "take j (pages s') = take j (A @ [?p])"
      unfolding ps ps' by (cases "j \<le> length A") (simp_all add: not_le take_Cons' le_Suc_eq)
    have "set (childNodes a) = set ?pre \<union> set ?suf"
      by (metis append_take_drop_id set_append)
    with y have "y \<in> set (documentNodes (A @ [?p])) \<or> y \<in> set ?suf"
      unfolding dn by auto
    then show ?thesis
      unfolding car tk using documentNodes_take_drop[of "A @ [?p]" j] by auto
  qed
  from f1 f2 f3 f4 f5 f6 f7 show ?thesis by simp
qed

lemma wellFormed_take_drop:
  assumes "wellFormed ps" and "a \<in> set (documentNodes (take j ps))"
    and "b \<in> set (documentNodes (drop j ps))"
  shows "nid a \<noteq> nid b"
proof -
  have "documentNodes ps = documentNodes (take j ps) @ documentNodes (drop j ps)"
    by (simp only: documentNodes_append[symmetric] append_take_drop_id)
  with assms(1) have "distinct (map nid (documentNodes (take j ps) @ documentNodes (drop j ps)))"
    by (simp add: wellFormed_def)
  with assms(2,3) show ?thesis by auto
qed

lemma documentNodes_drop_mono:
  assumes "j \<le> k"
  shows "set (documentNodes (drop k ps)) \<subseteq> set (documentNodes (drop j ps))"
proof -
  have "drop k ps = drop (k - j) (drop j ps)" using assms by simp
  then have "set (drop k ps) \<subseteq> set (drop j ps)" by (metis set_drop_subset)
  then show ?thesis by (auto simp: documentNodes_def)
qed

lemma drop_Cons_nth:
  assumes "drop k ps = q # B"
  shows "k < length ps" and "ps ! k = q"
proof -
  show k: "k < length ps" using assms by (cases "k < length ps") simp_all
  from nth_via_drop[OF assms] show "ps ! k = q" .
qed

lemma receivedContentI:
  assumes "y0 \<in> set (documentNodes (take j before))"
    and "y2 \<in> set (carriedNodes (length before) after j)" and "nid y2 = nid y0"
  shows "receivedContent before after j"
  unfolding receivedContent_def list_ex_iff
proof (rule bexI[OF _ assms(1)])
  from assms(2) have "nid y2 \<in> nid ` set (carriedNodes (length before) after j)" by (rule imageI)
  with assms(3) show "nid y0 \<in> set (map nid (carriedNodes (length before) after j))" by simp
qed

text \<open>
  Without a move no page receives content, and no block node is on a phrase
  destination when no page contains the phrase.
\<close>

lemma receivedContent_unchanged:
  assumes "wellFormed ps"
  shows "\<not> receivedContent ps ps j"
proof
  assume "receivedContent ps ps j"
  then obtain y0 y2 where "y0 \<in> set (documentNodes (take j ps))"
    and "y2 \<in> set (documentNodes (drop j ps))" and "nid y2 = nid y0"
    by (auto simp: receivedContent_def list_ex_iff carriedNodes_same_length)
  with wellFormed_take_drop[OF assms, of y0 j y2] show False by simp
qed

lemma onPhraseDestination_no_phrase:
  assumes "\<forall>p\<in>set ps. \<not> containsPhrase p"
  shows "\<not> onPhraseDestination ps after n"
  using assms by (auto simp: onPhraseDestination_def phraseDestination_def list_ex_iff)

lemma receivedContent_step:
  assumes wf0: "wellFormed ps0" and wf: "wellFormed ps"
    and ji: "j \<le> i" and il: "i < length ps" and len: "length ps = length ps0"
    and U: "drop (Suc i) ps = drop (Suc i) ps0"
    and f4: "\<forall>j\<le>length ps.
           set (map nid (documentNodes (take j ps')))
             \<subseteq> set (map nid (documentNodes (take j ps)))"
    and f6: "\<forall>x\<in>set (documentNodes ps).
           x \<in> set (documentNodes ps')
           \<or> (\<exists>q B. drop (Suc i) ps = q # B \<and> x \<in> set (pageNodes q) \<and> containsPhrase q
                 \<and> (\<exists>y\<in>set (documentNodes (take (Suc i) ps)).
                       y \<in> set (carriedNodes (length ps) ps' (Suc i))))"
    and f7: "\<forall>j\<le>length ps. \<forall>y\<in>set (documentNodes ps).
           y \<in> set (documentNodes (take j ps'))
           \<or> y \<in> set (carriedNodes (length ps) ps' j)
           \<or> y \<notin> set (documentNodes ps')"
    and rc: "receivedContent ps0 ps j"
  shows "receivedContent ps0 ps' j"
proof -
  from rc len obtain y0 y2 where y0: "y0 \<in> set (documentNodes (take j ps0))"
    and y2: "y2 \<in> set (documentNodes (drop j ps))" and e: "nid y2 = nid y0"
    by (auto simp: receivedContent_def list_ex_iff carriedNodes_same_length)
  from y2 have y2d: "y2 \<in> set (documentNodes ps)"
    using documentNodes_take_drop[of ps j] by simp
  have jl: "j \<le> length ps" using ji il by simp
  have notq: "\<not> (\<exists>q B. drop (Suc i) ps = q # B \<and> y2 \<in> set (pageNodes q))"
  proof
    assume "\<exists>q B. drop (Suc i) ps = q # B \<and> y2 \<in> set (pageNodes q)"
    then obtain q B where d: "drop (Suc i) ps = q # B" and m: "y2 \<in> set (pageNodes q)" by blast
    from d U m have "y2 \<in> set (documentNodes (drop (Suc i) ps0))" by simp
    moreover have "set (documentNodes (drop (Suc i) ps0)) \<subseteq> set (documentNodes (drop j ps0))"
      using ji by (intro documentNodes_drop_mono) simp
    ultimately have "y2 \<in> set (documentNodes (drop j ps0))" by auto
    from wellFormed_take_drop[OF wf0 y0 this] e show False by simp
  qed
  with f6 y2d have in': "y2 \<in> set (documentNodes ps')" by blast
  have "y2 \<notin> set (documentNodes (take j ps'))"
  proof
    assume "y2 \<in> set (documentNodes (take j ps'))"
    then have "nid y2 \<in> set (map nid (documentNodes (take j ps')))" by simp
    with jl have "nid y2 \<in> set (map nid (documentNodes (take j ps)))" using f4 by blast
    then obtain z where z: "z \<in> set (documentNodes (take j ps))" and "nid z = nid y2" by auto
    with wellFormed_take_drop[OF wf z y2] show False by simp
  qed
  with f7 jl y2d in' have "y2 \<in> set (carriedNodes (length ps) ps' j)" by blast
  with len have "y2 \<in> set (carriedNodes (length ps0) ps' j)" by simp
  with y0 show ?thesis using e by (rule receivedContentI)
qed

lemma forEachContainer_pass:
  assumes "wellFormed ps0" and "n = length ps0"
    and "length (pages s) = n \<or> n \<le> i"
    and "wellFormed (pages s)"
    and "drop (Suc i) (pages s) = drop (Suc i) ps0"
    and "\<forall>j\<le>n. set (map nid (documentNodes (take j (pages s))))
                  \<subseteq> set (map nid (documentNodes (take j ps0)))"
    and "blockNodes (pages s)
           = filter (\<lambda>x. nid x \<in> set (map nid (blockNodes (pages s)))) (blockNodes ps0)"
    and "\<forall>x\<in>set (blockNodes ps0).
           nid x \<in> set (map nid (blockNodes (pages s)))
           \<or> (\<exists>j\<le>i. j < n \<and> containsPhrase (ps0 ! j)
                  \<and> nid x \<in> set (map nid (pageNodes (ps0 ! j)))
                  \<and> receivedContent ps0 (pages s) j)"
    and "forEachContainer L [i ..< n] s = (Returned, s')"
  shows "wellFormed (pages s')
    \<and> blockNodes (pages s')
           = filter (\<lambda>x. nid x \<in> set (map nid (blockNodes (pages s')))) (blockNodes ps0)
    \<and> (\<forall>x\<in>set (blockNodes ps0).
           nid x \<in> set (map nid (blockNodes (pages s')))
           \<or> (\<exists>j<n. containsPhrase (ps0 ! j)
                  \<and> nid x \<in> set (map nid (pageNodes (ps0 ! j)))
                  \<and> receivedContent ps0 (pages s') j))"
  using assms
proof (induction "n - i" arbitrary: i s)
  case 0
  then have "[i ..< n] = []" by simp
  with 0 have "s' = s" by simp
  with "0.prems"(4,7,8) show ?case by blast
next
  case (Suc m)
  note wf0 = Suc.prems(1) and n = Suc.prems(2) and wf = Suc.prems(4) and U = Suc.prems(5)
    and P = Suc.prems(6) and S = Suc.prems(7) and D = Suc.prems(8)
  from Suc.hyps(2) have lt: "i < n" by simp
  with Suc.prems(3) have len: "length (pages s) = n" by simp
  from lt have up: "[i ..< n] = i # [Suc i ..< n]" by (simp add: upt_conv_Cons)
  obtain o1 s1 where c: "containerCallback L i s = (o1, s1)"
    by (cases "containerCallback L i s")
  with Suc.prems(9) up have o1: "o1 = Returned"
    by (cases o1) simp_all
  with Suc.prems(9) up c have rest: "forEachContainer L [Suc i ..< n] s1 = (Returned, s')"
    by simp
  from lt len have il: "i < length (pages s)" by simp
  from containerCallback_step[OF il wf c[unfolded o1]]
  have f1: "wellFormed (pages s1)"
    and f2: "drop (Suc (Suc i)) (pages s1) = drop (Suc (Suc i)) (pages s)"
    and f3: "length (pages s1) = length (pages s) \<or> Suc i = length (pages s)"
    and f4: "\<forall>j\<le>length (pages s).
           set (map nid (documentNodes (take j (pages s1))))
             \<subseteq> set (map nid (documentNodes (take j (pages s))))"
    and f5: "blockNodes (pages s1)
           = filter (\<lambda>n. nid n \<in> set (map nid (blockNodes (pages s1)))) (blockNodes (pages s))"
    and f6: "\<forall>x\<in>set (documentNodes (pages s)).
           x \<in> set (documentNodes (pages s1))
           \<or> (\<exists>q B. drop (Suc i) (pages s) = q # B \<and> x \<in> set (pageNodes q) \<and> containsPhrase q
                 \<and> (\<exists>y\<in>set (documentNodes (take (Suc i) (pages s))).
                       y \<in> set (carriedNodes (length (pages s)) (pages s1) (Suc i))))"
    and f7: "\<forall>j\<le>length (pages s). \<forall>y\<in>set (documentNodes (pages s)).
           y \<in> set (documentNodes (take j (pages s1)))
           \<or> y \<in> set (carriedNodes (length (pages s)) (pages s1) j)
           \<or> y \<notin> set (documentNodes (pages s1))"
    by blast+
  have len0: "length (pages s) = length ps0" using len n by simp
  have len1: "length (pages s1) = n \<or> n \<le> Suc i" using f3 len by auto
  have U1: "drop (Suc (Suc i)) (pages s1) = drop (Suc (Suc i)) ps0"
  proof -
    have "drop (Suc (Suc i)) (pages s) = drop 1 (drop (Suc i) (pages s))" by simp
    also have "\<dots> = drop 1 (drop (Suc i) ps0)" using U by simp
    finally show ?thesis using f2 by simp
  qed
  have P1: "\<forall>j\<le>n. set (map nid (documentNodes (take j (pages s1))))
                  \<subseteq> set (map nid (documentNodes (take j ps0)))"
    using P f4 len by blast
  have sub: "set (blockNodes (pages s1)) \<subseteq> set (blockNodes (pages s))"
    by (subst f5) auto
  have S1: "blockNodes (pages s1)
           = filter (\<lambda>x. nid x \<in> set (map nid (blockNodes (pages s1)))) (blockNodes ps0)"
  proof -
    have "blockNodes (pages s1)
        = filter (\<lambda>x. nid x \<in> set (map nid (blockNodes (pages s1))))
            (filter (\<lambda>x. nid x \<in> set (map nid (blockNodes (pages s)))) (blockNodes ps0))"
      using f5 S by simp
    also have "\<dots> = filter (\<lambda>x. nid x \<in> set (map nid (blockNodes (pages s)))
                              \<and> nid x \<in> set (map nid (blockNodes (pages s1)))) (blockNodes ps0)"
      by (simp only: filter_filter)
    also have "\<dots> = filter (\<lambda>x. nid x \<in> set (map nid (blockNodes (pages s1)))) (blockNodes ps0)"
      using sub by (intro filter_cong) auto
    finally show ?thesis .
  qed
  have D1: "\<forall>x\<in>set (blockNodes ps0).
           nid x \<in> set (map nid (blockNodes (pages s1)))
           \<or> (\<exists>j\<le>Suc i. j < n \<and> containsPhrase (ps0 ! j)
                  \<and> nid x \<in> set (map nid (pageNodes (ps0 ! j)))
                  \<and> receivedContent ps0 (pages s1) j)"
  proof
    fix x assume x0: "x \<in> set (blockNodes ps0)"
    from D x0 consider (kept) "nid x \<in> set (map nid (blockNodes (pages s)))"
      | (gone) j where "j \<le> i" "j < n" "containsPhrase (ps0 ! j)"
          "nid x \<in> set (map nid (pageNodes (ps0 ! j)))" "receivedContent ps0 (pages s) j"
      by blast
    then show "nid x \<in> set (map nid (blockNodes (pages s1)))
           \<or> (\<exists>j\<le>Suc i. j < n \<and> containsPhrase (ps0 ! j)
                  \<and> nid x \<in> set (map nid (pageNodes (ps0 ! j)))
                  \<and> receivedContent ps0 (pages s1) j)"
    proof cases
      case kept
      with x0 have "x \<in> set (filter (\<lambda>x. nid x \<in> set (map nid (blockNodes (pages s)))) (blockNodes ps0))"
        by simp
      with S have xb: "x \<in> set (blockNodes (pages s))" by simp
      then have xd: "x \<in> set (documentNodes (pages s))" and xt: "nodeType x = 1"
        by (simp_all add: blockNodes_def)
      from f6 xd consider (stays) "x \<in> set (documentNodes (pages s1))"
        | (dropped) q B y where "drop (Suc i) (pages s) = q # B" "x \<in> set (pageNodes q)"
            "containsPhrase q" "y \<in> set (documentNodes (take (Suc i) (pages s)))"
            "y \<in> set (carriedNodes (length ps0) (pages s1) (Suc i))"
        unfolding len0 by blast
      then show ?thesis
      proof cases
        case stays
        with xt have "x \<in> set (blockNodes (pages s1))" by (simp add: blockNodes_def)
        then show ?thesis by auto
      next
        case (dropped q B y)
        from dropped(1) U have d0: "drop (Suc i) ps0 = q # B" by simp
        from drop_Cons_nth[OF d0] n have sl: "Suc i < n" and q: "ps0 ! Suc i = q" by simp_all
        from dropped(4) have "nid y \<in> set (map nid (documentNodes (take (Suc i) (pages s))))"
          by simp
        with P sl have "nid y \<in> set (map nid (documentNodes (take (Suc i) ps0)))"
          by (meson less_imp_le subsetD Suc_leI)
        then obtain y0 where "y0 \<in> set (documentNodes (take (Suc i) ps0))" "nid y0 = nid y"
          by auto
        then have "receivedContent ps0 (pages s1) (Suc i)"
          using dropped(5) by (intro receivedContentI[of y0 _ _ y]) simp_all
        with sl q dropped(2,3) show ?thesis by auto
      qed
    next
      case (gone j)
      from receivedContent_step[OF wf0 wf gone(1) il len0 U f4 f6 f7 gone(5)] gone
      show ?thesis by (meson le_SucI)
    qed
  qed
  from Suc.hyps(2) have m: "m = n - Suc i" by simp
  from Suc.hyps(1)[OF m wf0 n len1 f1 U1 P1 S1 D1 rest] show ?case .
qed

text \<open>
  Claim C1, as stated for every document state, fails when the destination's
  HTML contains the placeholder phrase: \<open>moveContentToNextPage\<close> then empties
  the destination before it inserts the moved nodes, so the placeholder paragraph
  of a stub page is a block node of the document before the pass and of no page
  after it.
\<close>

theorem pass_drops_placeholder_block:
  "fst (checkPageOverflow sampleLayout stubNextPage) = Returned
   \<and> map nid (blockNodes (pages stubNextPage)) = [1, 2, 3, 10]
   \<and> map nid (blockNodes (pages (snd (checkPageOverflow sampleLayout stubNextPage)))) = [1, 2, 3]"
  by code_simp

text \<open>
  Claim C1, amended: in a well-formed document every completed overflow pass
  keeps the block nodes and their order. The block nodes of the pages after the
  pass, in page order, are those block nodes from before the pass that are still
  on a page, in their original order: nothing is duplicated, reordered or added.
  A block node is on no page afterwards only if it was on a page whose HTML
  contained the phrase \<open>Continue your content here\<close> and onto which the pass
  moved content. Every node still belongs to one page only.
\<close>

theorem pass_conserves_block_nodes:
  assumes "wellFormed (pages s)" and "checkPageOverflow L s = (Returned, s')"
  shows "blockNodes (pages s')
           = filter (\<lambda>n. nid n \<in> set (map nid (blockNodes (pages s')))) (blockNodes (pages s))
    \<and> (\<forall>n\<in>set (blockNodes (pages s)).
           nid n \<in> set (map nid (blockNodes (pages s')))
           \<or> onPhraseDestination (pages s) (pages s') n)
    \<and> wellFormed (pages s')"
proof (cases "isProcessingOverflow s")
  case True
  with assms have "s' = s" by (simp add: checkPageOverflow_def)
  with assms(1) filter_present[of "blockNodes (pages s)"] show ?thesis by simp
next
  case False
  let ?s1 = "s\<lparr>isProcessingOverflow := True\<rparr>"
  let ?n = "length (pages s)"
  obtain o2 s2 where f: "forEachContainer L [0 ..< length (pages ?s1)] ?s1 = (o2, s2)"
    by (cases "forEachContainer L [0 ..< length (pages ?s1)] ?s1")
  with assms(2) False have o2: "o2 = Returned" and s': "s' = s2\<lparr>isProcessingOverflow := False\<rparr>"
    by (simp_all add: checkPageOverflow_def)
  from f o2 have run: "forEachContainer L [0 ..< ?n] ?s1 = (Returned, s2)" by simp
  have S: "blockNodes (pages ?s1)
      = filter (\<lambda>x. nid x \<in> set (map nid (blockNodes (pages ?s1)))) (blockNodes (pages s))"
    using filter_present[of "blockNodes (pages s)"] by simp
  have D: "\<forall>x\<in>set (blockNodes (pages s)).
           nid x \<in> set (map nid (blockNodes (pages ?s1)))
           \<or> (\<exists>j\<le>0. j < ?n \<and> containsPhrase (pages s ! j)
                  \<and> nid x \<in> set (map nid (pageNodes (pages s ! j)))
                  \<and> receivedContent (pages s) (pages ?s1) j)"
    by simp
  have "wellFormed (pages s2)
    \<and> blockNodes (pages s2)
           = filter (\<lambda>x. nid x \<in> set (map nid (blockNodes (pages s2)))) (blockNodes (pages s))
    \<and> (\<forall>x\<in>set (blockNodes (pages s)).
           nid x \<in> set (map nid (blockNodes (pages s2)))
           \<or> (\<exists>j<?n. containsPhrase (pages s ! j)
                  \<and> nid x \<in> set (map nid (pageNodes (pages s ! j)))
                  \<and> receivedContent (pages s) (pages s2) j))"
    by (rule forEachContainer_pass[OF assms(1) refl _ _ _ _ S D run]) (simp_all add: assms(1))
  then have w: "wellFormed (pages s2)"
    and b: "blockNodes (pages s2)
           = filter (\<lambda>x. nid x \<in> set (map nid (blockNodes (pages s2)))) (blockNodes (pages s))"
    and d: "\<forall>x\<in>set (blockNodes (pages s)).
           nid x \<in> set (map nid (blockNodes (pages s2)))
           \<or> (\<exists>j<?n. containsPhrase (pages s ! j)
                  \<and> nid x \<in> set (map nid (pageNodes (pages s ! j)))
                  \<and> receivedContent (pages s) (pages s2) j)"
    by blast+
  have "nid x \<in> set (map nid (blockNodes (pages s2))) \<or> onPhraseDestination (pages s) (pages s2) x"
    if "x \<in> set (blockNodes (pages s))" for x
  proof -
    from d that consider "nid x \<in> set (map nid (blockNodes (pages s2)))"
      | j where "j < ?n" "containsPhrase (pages s ! j)"
          "nid x \<in> set (map nid (pageNodes (pages s ! j)))"
          "receivedContent (pages s) (pages s2) j"
      by blast
    then show ?thesis
    proof cases
      case 1
      then show ?thesis ..
    next
      case (2 j)
      then have "onPhraseDestination (pages s) (pages s2) x"
        unfolding onPhraseDestination_def phraseDestination_def list_ex_iff
        by (intro bexI[of _ j]) simp_all
      then show ?thesis ..
    qed
  qed
  with w b s' show ?thesis by simp
qed

text \<open>
  On the three sample pages the pass moves paragraph 2 onto the second page,
  which contains the phrase: nodes 10 and 11 are the block nodes on a phrase
  destination. The third page contains the phrase too but receives nothing, and
  keeps node 30.
\<close>

theorem pass_conserves_block_nodes_witness:
  "wellFormed (pages threePages)
   \<and> fst (checkPageOverflow sampleLayout threePages) = Returned
   \<and> map (map nid \<circ> pageNodes) (pages threePages) = [[1, 2], [10, 11], [30]]
   \<and> map (map nid \<circ> pageNodes) (pages (snd (checkPageOverflow sampleLayout threePages)))
       = [[1], [2], [30]]
   \<and> map nid (filter (onPhraseDestination (pages threePages)
                        (pages (snd (checkPageOverflow sampleLayout threePages))))
                (blockNodes (pages threePages))) = [10, 11]
   \<and> blockNodes (pages (snd (checkPageOverflow sampleLayout threePages)))
       = filter (\<lambda>n. nid n \<in> set (map nid
                   (blockNodes (pages (snd (checkPageOverflow sampleLayout threePages))))))
           (blockNodes (pages threePages))
   \<and> list_all (\<lambda>n. nid n \<in> set (map nid
                   (blockNodes (pages (snd (checkPageOverflow sampleLayout threePages)))))
                 \<or> onPhraseDestination (pages threePages)
                      (pages (snd (checkPageOverflow sampleLayout threePages))) n)
        (blockNodes (pages threePages))
   \<and> wellFormed (pages (snd (checkPageOverflow sampleLayout threePages)))"
proof -
  have w: "wellFormed (pages threePages)" by code_simp
  have r: "fst (checkPageOverflow sampleLayout threePages) = Returned" by code_simp
  have b: "map (map nid \<circ> pageNodes) (pages threePages) = [[1, 2], [10, 11], [30]]" by code_simp
  have a: "map (map nid \<circ> pageNodes) (pages (snd (checkPageOverflow sampleLayout threePages)))
       = [[1], [2], [30]]" by code_simp
  have p: "map nid (filter (onPhraseDestination (pages threePages)
                        (pages (snd (checkPageOverflow sampleLayout threePages))))
                (blockNodes (pages threePages))) = [10, 11]" by code_simp
  from r have e: "checkPageOverflow sampleLayout threePages
      = (Returned, snd (checkPageOverflow sampleLayout threePages))"
    by (cases "checkPageOverflow sampleLayout threePages") simp
  from pass_conserves_block_nodes[OF w e] w r b a p
  show ?thesis unfolding list_all_iff by blast
qed

text \<open>
  Claim C7 at a destination that holds the placeholder paragraph followed by a
  paragraph of the user's: the destination is not an empty stub, yet
  \<open>moveContentToNextPage\<close> empties it, because the test is whether its HTML
  contains the placeholder phrase. The user's paragraph (node 11) is on no page
  afterwards, where the claim has the prior content follow the moved nodes.
\<close>

theorem moveContentToNextPage_drops_destination_content:
  "map (map nid \<circ> pageNodes) (pages notesNextPage) = [[1, 2, 3], [10, 11]]
   \<and> fst (moveContentToNextPage notesNextPage (childNodes threeParagraphs) 1 1) = Returned
   \<and> map (map nid \<circ> pageNodes)
         (pages (snd (moveContentToNextPage notesNextPage (childNodes threeParagraphs) 1 1)))
       = [[1], [2, 3]]"
  by code_simp

end
